theory Spec2Isabelle
  imports Main "HOL-Library.Sublist" "HOL-Library.Multiset"
begin

section \<open>Go strings, runes and UTF-8\<close>

text \<open>
  A Go string is a sequence of bytes: \<^typ>\<open>string\<close> (a list of 8-bit characters), with
  \<open>byte c\<close> the numeric value of a byte (an \<^typ>\<open>int\<close> between 0 and 255). A rune is a code point, an \<open>int32\<close> in Go;
  every rune of the program comes from a decoder or from \<open>strconv.ParseInt(_, 16, 32)\<close>,
  so it is modelled as an \<^typ>\<open>int\<close> that never leaves the 32-bit range.
\<close>

type_synonym rune = int

definition byte :: "char \<Rightarrow> int" where
  "byte c = of_char c"

definition RuneError :: rune where
  "RuneError = 0xFFFD"

definition RuneSelf :: int where
  "RuneSelf = 0x80"

text \<open>
  \<open>utf8.first\<close> and \<open>utf8.acceptRanges\<close>: for a lead byte of a multi-byte encoding, the
  size of the encoding and the accepted range of the second byte. \<open>None\<close> is the table's
  \<open>xx\<close> (invalid) entry; ASCII bytes are handled before the table is read.
\<close>

definition leadInfo :: "int \<Rightarrow> (nat \<times> int \<times> int) option" where
  "leadInfo s0 =
     (if 0xC2 \<le> s0 \<and> s0 \<le> 0xDF then Some (2, 0x80, 0xBF)
      else if s0 = 0xE0 then Some (3, 0xA0, 0xBF)
      else if 0xE1 \<le> s0 \<and> s0 \<le> 0xEC then Some (3, 0x80, 0xBF)
      else if s0 = 0xED then Some (3, 0x80, 0x9F)
      else if 0xEE \<le> s0 \<and> s0 \<le> 0xEF then Some (3, 0x80, 0xBF)
      else if s0 = 0xF0 then Some (4, 0x90, 0xBF)
      else if 0xF1 \<le> s0 \<and> s0 \<le> 0xF3 then Some (4, 0x80, 0xBF)
      else if s0 = 0xF4 then Some (4, 0x80, 0x8F)
      else None)"

text \<open>\<open>utf8.DecodeRuneInString\<close>: the first rune of \<open>s\<close> and its width in bytes.\<close>

definition DecodeRuneInString :: "string \<Rightarrow> rune \<times> nat" where
  "DecodeRuneInString s =
     (case s of
        [] \<Rightarrow> (RuneError, 0)
      | c0 # _ \<Rightarrow>
          let s0 = byte c0 in
          if s0 < RuneSelf then (s0, 1)
          else
            (case leadInfo s0 of
               None \<Rightarrow> (RuneError, 1)
             | Some (sz, lo, hi) \<Rightarrow>
                 if length s < sz then (RuneError, 1)
                 else
                   let s1 = byte (s ! 1) in
                   if s1 < lo \<or> hi < s1 then (RuneError, 1)
                   else if sz \<le> 2 then ((s0 mod 32) * 64 + s1 mod 64, 2)
                   else
                     let s2 = byte (s ! 2) in
                     if s2 < 0x80 \<or> 0xBF < s2 then (RuneError, 1)
                     else if sz \<le> 3
                       then ((s0 mod 16) * 4096 + (s1 mod 64) * 64 + s2 mod 64, 3)
                     else
                       let s3 = byte (s ! 3) in
                       if s3 < 0x80 \<or> 0xBF < s3 then (RuneError, 1)
                       else ((s0 mod 8) * 262144 + (s1 mod 64) * 4096
                               + (s2 mod 64) * 64 + s3 mod 64, 4)))"

text \<open>\<open>utf8.RuneStart\<close>: the byte is not a continuation byte.\<close>

definition RuneStart :: "int \<Rightarrow> bool" where
  "RuneStart b = (b div 64 \<noteq> 2)"

text \<open>
  The backward scan of \<open>utf8.DecodeLastRuneInString\<close>:
  \<^verbatim>\<open>for start--; start >= lim; start-- { if RuneStart(s[start]) { break } }\<close>
  called with \<open>start\<close> already decremented once; the result is the final \<open>start\<close>.
\<close>

function scanBack :: "string \<Rightarrow> int \<Rightarrow> int \<Rightarrow> int" where
  "scanBack s lim start =
     (if start \<ge> lim
      then (if RuneStart (byte (s ! nat start)) then start else scanBack s lim (start - 1))
      else start)"
  by pat_completeness auto
termination
  by (relation "measure (\<lambda>(s, lim, start). nat (start - lim + 1))") auto

declare scanBack.simps [simp del]

text \<open>\<open>utf8.DecodeLastRuneInString\<close>: the last rune of \<open>s\<close> and its width in bytes.\<close>

definition DecodeLastRuneInString :: "string \<Rightarrow> rune \<times> nat" where
  "DecodeLastRuneInString s =
     (let end = int (length s) in
      if end = 0 then (RuneError, 0)
      else
        let start = end - 1; r = byte (s ! nat start) in
        if r < RuneSelf then (r, 1)
        else
          let lim = (if end - 4 < 0 then 0 else end - 4);
              start1 = scanBack s lim (start - 1);
              start2 = (if start1 < 0 then 0 else start1);
              (r2, wid) = DecodeRuneInString (drop (nat start2) s)
          in if start2 + int wid \<noteq> end then (RuneError, 1) else (r2, wid))"

text \<open>
  \<open>string([]rune{r})\<close> (\<open>utf8.AppendRune\<close>): the UTF-8 encoding of one rune; a rune that
  is negative, above U+10FFFF or a surrogate is encoded as U+FFFD.
\<close>

definition encodeRune :: "rune \<Rightarrow> string" where
  "encodeRune r =
     (if 0 \<le> r \<and> r \<le> 0x7F then [char_of r]
      else if 0 \<le> r \<and> r \<le> 0x7FF then [char_of (0xC0 + r div 64), char_of (0x80 + r mod 64)]
      else if r < 0 \<or> r > 0x10FFFF \<or> (0xD800 \<le> r \<and> r \<le> 0xDFFF)
        then [CHR 0xEF, CHR 0xBF, CHR 0xBD]
      else if r \<le> 0xFFFF
        then [char_of (0xE0 + r div 4096), char_of (0x80 + (r div 64) mod 64),
              char_of (0x80 + r mod 64)]
      else [char_of (0xF0 + r div 262144), char_of (0x80 + (r div 4096) mod 64),
            char_of (0x80 + (r div 64) mod 64), char_of (0x80 + r mod 64)])"

text \<open>\<open>string(rs)\<close> for a rune slice.\<close>

definition stringOfRunes :: "rune list \<Rightarrow> string" where
  "stringOfRunes rs = concat (map encodeRune rs)"

text \<open>
  \<open>for _, r := range s\<close>: the runes of \<open>s\<close> in order. Each step decodes one rune and
  advances by its width, which is at least 1 on a non-empty string, so
  \<open>drop (wid - 1) cs\<close> is \<open>s[wid:]\<close>.
\<close>

fun runes :: "string \<Rightarrow> rune list" where
  "runes [] = []"
| "runes (c # cs) =
     (case DecodeRuneInString (c # cs) of (r, wid) \<Rightarrow> r # runes (drop (wid - 1) cs))"

section \<open>Package strings\<close>

text \<open>\<open>strings.HasPrefix\<close>.\<close>

definition HasPrefix :: "string \<Rightarrow> string \<Rightarrow> bool" where
  "HasPrefix s p = (length s \<ge> length p \<and> take (length p) s = p)"

text \<open>\<open>strings.Index\<close>: the offset of the first occurrence, \<open>None\<close> for Go's \<open>-1\<close>.\<close>

fun Index :: "string \<Rightarrow> string \<Rightarrow> nat option" where
  "Index [] sep = (if sep = [] then Some 0 else None)"
| "Index (c # cs) sep =
     (if HasPrefix (c # cs) sep then Some 0 else map_option Suc (Index cs sep))"

text \<open>\<open>strings.Contains\<close>.\<close>

definition Contains :: "string \<Rightarrow> string \<Rightarrow> bool" where
  "Contains s substr = (Index s substr \<noteq> None)"

text \<open>\<open>strings.Cut\<close>.\<close>

definition Cut :: "string \<Rightarrow> string \<Rightarrow> string \<times> string \<times> bool" where
  "Cut s sep =
     (case Index s sep of
        Some i \<Rightarrow> (take i s, drop (i + length sep) s, True)
      | None \<Rightarrow> (s, [], False))"

text \<open>
  The loop of \<open>strings.genSplit\<close> for a non-empty separator; \<open>n\<close> is the number of cuts
  still allowed.
\<close>

fun genSplit :: "string \<Rightarrow> string \<Rightarrow> nat \<Rightarrow> string list" where
  "genSplit s sep 0 = [s]"
| "genSplit s sep (Suc n) =
     (case Index s sep of
        None \<Rightarrow> [s]
      | Some m \<Rightarrow> take m s # genSplit (drop (m + length sep) s) sep n)"

text \<open>\<open>strings.SplitN(s, sep, n)\<close> for \<open>n > 0\<close> and a non-empty \<open>sep\<close>.\<close>

definition SplitN :: "string \<Rightarrow> string \<Rightarrow> nat \<Rightarrow> string list" where
  "SplitN s sep n = genSplit s sep (min n (length s + 1) - 1)"

text \<open>
  \<open>strings.Split(s, sep)\<close> for a non-empty \<open>sep\<close>: \<open>genSplit\<close> with \<open>n = Count(s, sep) + 1\<close>.
  The loop stops at the first miss of \<open>Index\<close>, so every bound from \<open>Count(s, sep)\<close> on
  gives the same list; \<open>length s\<close> is such a bound.
\<close>

definition Split :: "string \<Rightarrow> string \<Rightarrow> string list" where
  "Split s sep = genSplit s sep (length s)"

text \<open>\<open>strings.Join\<close>.\<close>

fun Join :: "string list \<Rightarrow> string \<Rightarrow> string" where
  "Join [] sep = []"
| "Join [x] sep = x"
| "Join (x # y # ys) sep = x @ sep @ Join (y # ys) sep"

text \<open>
  \<open>strings.ReplaceAll(s, old, new)\<close> for a non-empty \<open>old\<close>: the non-overlapping
  occurrences are replaced from left to right.
\<close>

fun ReplaceAll :: "string \<Rightarrow> string \<Rightarrow> string \<Rightarrow> string" where
  "ReplaceAll [] old new = []"
| "ReplaceAll (c # cs) old new =
     (if HasPrefix (c # cs) old
      then new @ ReplaceAll (drop (length old - 1) cs) old new
      else c # ReplaceAll cs old new)"

text \<open>\<open>unicode.IsSpace\<close>.\<close>

definition IsSpace :: "rune \<Rightarrow> bool" where
  "IsSpace r =
     (if 0 \<le> r \<and> r \<le> 0xFF
      then r = 0x09 \<or> r = 0x0A \<or> r = 0x0B \<or> r = 0x0C \<or> r = 0x0D \<or> r = 0x20
           \<or> r = 0x85 \<or> r = 0xA0
      else r = 0x1680 \<or> (0x2000 \<le> r \<and> r \<le> 0x200A) \<or> r = 0x2028 \<or> r = 0x2029
           \<or> r = 0x202F \<or> r = 0x205F \<or> r = 0x3000)"

text \<open>\<open>strings.TrimLeftFunc\<close>: drop leading runes while \<open>f\<close> holds.\<close>

fun TrimLeftFunc :: "string \<Rightarrow> (rune \<Rightarrow> bool) \<Rightarrow> string" where
  "TrimLeftFunc [] f = []"
| "TrimLeftFunc (c # cs) f =
     (case DecodeRuneInString (c # cs) of
        (r, wid) \<Rightarrow> if f r then TrimLeftFunc (drop (wid - 1) cs) f else c # cs)"

text \<open>
  The width that \<open>DecodeRuneInString\<close> and \<open>DecodeLastRuneInString\<close> report on a
  non-empty string is at least 1 and at most the length: the loops that shrink a string
  by a decoded width terminate and never slice out of range.
\<close>

lemma DecodeRuneInString_size:
  "s \<noteq> [] \<Longrightarrow> 1 \<le> snd (DecodeRuneInString s) \<and> snd (DecodeRuneInString s) \<le> length s"
proof (cases s)
  case Nil
  then show "s \<noteq> [] \<Longrightarrow> ?thesis" by simp
next
  case (Cons c cs)
  have "1 \<le> snd (DecodeRuneInString (c # cs))"
    by (simp add: DecodeRuneInString_def Let_def split: option.splits prod.splits)
  moreover have "snd (DecodeRuneInString (c # cs)) \<le> length (c # cs)"
    by (auto simp: DecodeRuneInString_def Let_def leadInfo_def Suc_le_eq
             split: option.splits prod.splits if_splits)
  ultimately show "s \<noteq> [] \<Longrightarrow> ?thesis" using Cons by simp
qed

lemma scanBack_le: "scanBack s lim start \<le> start"
proof (induction s lim start rule: scanBack.induct)
  case (1 s lim start)
  show ?case
  proof (cases "start \<ge> lim \<and> \<not> RuneStart (byte (s ! nat start))")
    case True
    then have "scanBack s lim start = scanBack s lim (start - 1)"
      by (subst scanBack.simps) simp
    moreover have "scanBack s lim (start - 1) \<le> start - 1"
      using True "1.IH" by simp
    ultimately show ?thesis by simp
  next
    case False
    then have "scanBack s lim start = start"
      by (subst scanBack.simps) auto
    then show ?thesis by simp
  qed
qed

lemma DecodeLast_inner_size:
  fixes s :: string
  defines "start1 lim \<equiv> scanBack s lim (int (length s) - 1 - 1)"
  defines "start2 lim \<equiv> (if start1 lim < 0 then 0 else start1 lim)"
  assumes "s \<noteq> []"
  shows "1 \<le> snd (DecodeRuneInString (drop (nat (start2 lim)) s))"
proof -
  have "start1 lim \<le> int (length s) - 2"
    using scanBack_le [of s lim "int (length s) - 1 - 1"] by (simp add: start1_def)
  then have "nat (start2 lim) < length s"
    using assms(3) by (auto simp: start2_def)
  then have "drop (nat (start2 lim)) s \<noteq> []" by simp
  then show ?thesis using DecodeRuneInString_size by blast
qed

lemma DecodeLastRuneInString_size:
  assumes "s \<noteq> []"
  shows "1 \<le> snd (DecodeLastRuneInString s) \<and> snd (DecodeLastRuneInString s) \<le> length s"
proof -
  have len: "1 \<le> length s" using assms by (cases s) auto
  show ?thesis
    using len DecodeLast_inner_size [OF assms, of 0]
      DecodeLast_inner_size [OF assms, of "int (length s) - 4"]
    by (auto simp: DecodeLastRuneInString_def Let_def case_prod_beta)
qed

text \<open>
  \<open>strings.TrimRightFunc\<close>: drop trailing runes, decoded from the end, while \<open>f\<close> holds.
\<close>

function TrimRightFunc :: "string \<Rightarrow> (rune \<Rightarrow> bool) \<Rightarrow> string" where
  "TrimRightFunc s f =
     (if s = [] then []
      else
        (case DecodeLastRuneInString s of
           (r, wid) \<Rightarrow> if f r then TrimRightFunc (take (length s - wid) s) f else s))"
  by pat_completeness auto
termination
  apply (relation "measure (\<lambda>(s, f). length s)")
   apply simp
  subgoal for s f r wid
    using DecodeLastRuneInString_size [of s] by (cases s) (auto simp: Suc_le_eq dest: sym)
  done

declare TrimRightFunc.simps [simp del]

text \<open>\<open>strings.TrimSpace\<close>, which is \<open>TrimFunc(s, unicode.IsSpace)\<close>.\<close>

definition TrimSpace :: "string \<Rightarrow> string" where
  "TrimSpace s = TrimRightFunc (TrimLeftFunc s IsSpace) IsSpace"

text \<open>
  \<open>strings.FieldsFunc\<close>: the maximal runs of runes on which \<open>f\<close> is false. \<open>cur\<close> is the
  field being read (empty when none is open: Go's \<open>start < 0\<close>).
\<close>

fun fieldsLoop :: "(rune \<Rightarrow> bool) \<Rightarrow> string \<Rightarrow> string \<Rightarrow> string list" where
  "fieldsLoop f cur [] = (if cur = [] then [] else [cur])"
| "fieldsLoop f cur (c # cs) =
     (case DecodeRuneInString (c # cs) of
        (r, wid) \<Rightarrow>
          if f r
          then (if cur = [] then fieldsLoop f [] (drop (wid - 1) cs)
                else cur # fieldsLoop f [] (drop (wid - 1) cs))
          else fieldsLoop f (cur @ take wid (c # cs)) (drop (wid - 1) cs))"

definition FieldsFunc :: "string \<Rightarrow> (rune \<Rightarrow> bool) \<Rightarrow> string list" where
  "FieldsFunc s f = fieldsLoop f [] s"

text \<open>
  \<open>strings.Compare\<close>: bytewise lexicographic comparison, with result \<open>-1\<close>, \<open>0\<close> or \<open>1\<close>.
\<close>

fun Compare :: "string \<Rightarrow> string \<Rightarrow> int" where
  "Compare [] [] = 0"
| "Compare [] (y # ys) = -1"
| "Compare (x # xs) [] = 1"
| "Compare (x # xs) (y # ys) =
     (if byte x < byte y then -1 else if byte y < byte x then 1 else Compare xs ys)"

section \<open>Package strconv\<close>

text \<open>\<open>lower(c) = c | ('x' - 'X')\<close>: sets bit 5.\<close>

definition lower :: "int \<Rightarrow> int" where
  "lower c = (if (c div 32) mod 2 = 0 then c + 32 else c)"

text \<open>The digit value of one byte in \<open>strconv.ParseUint\<close>; \<open>None\<close> is the syntax error.\<close>

definition digitVal :: "char \<Rightarrow> int option" where
  "digitVal c =
     (let n = byte c in
      if 0x30 \<le> n \<and> n \<le> 0x39 then Some (n - 0x30)
      else if 0x61 \<le> lower n \<and> lower n \<le> 0x7A then Some (lower n - 0x61 + 10)
      else None)"

text \<open>
  The digit loop of \<open>strconv.ParseUint(s, 16, 32)\<close>: \<open>cutoff = 2^60\<close>, \<open>maxVal = 2^32 - 1\<close>.
  Syntax and range errors both give \<open>None\<close>: the caller only tests \<open>err != nil\<close>.
\<close>

fun parseUintLoop :: "int \<Rightarrow> string \<Rightarrow> int option" where
  "parseUintLoop n [] = Some n"
| "parseUintLoop n (c # cs) =
     (case digitVal c of
        None \<Rightarrow> None
      | Some d \<Rightarrow>
          if d \<ge> 16 then None
          else if n \<ge> 2 ^ 60 then None
          else
            let n1 = n * 16 + d in
            if n1 > 2 ^ 32 - 1 then None else parseUintLoop n1 cs)"

definition ParseUint :: "string \<Rightarrow> int option" where
  "ParseUint s = (if s = [] then None else parseUintLoop 0 s)"

text \<open>\<open>strconv.ParseInt(s, 16, 32)\<close>; \<open>None\<close> when the returned error is not nil.\<close>

definition ParseInt :: "string \<Rightarrow> int option" where
  "ParseInt s =
     (case s of
        [] \<Rightarrow> None
      | c # cs \<Rightarrow>
          let neg = (c = CHR ''-'');
              s1 = (if c = CHR ''+'' \<or> c = CHR ''-'' then cs else s)
          in
            (case ParseUint s1 of
               None \<Rightarrow> None
             | Some un \<Rightarrow>
                 if \<not> neg \<and> un \<ge> 2 ^ 31 then None
                 else if neg \<and> un > 2 ^ 31 then None
                 else Some (if neg then - un else un)))"

section \<open>Results\<close>

text \<open>
  The \<open>error\<close> values the program builds, one constructor per \<open>fmt.Errorf\<close> site (with the
  arguments of the format), and the errors handed in by the environment.
\<close>

datatype error =
    ParseLine string                 \<comment> \<open>\<open>parse line %q: %s\<close>\<close>
  | FailedToParseLine string         \<comment> \<open>\<open>failed to parse line %q: %s\<close>\<close>
  | GetStatus string string          \<comment> \<open>\<open>get %q: %s\<close>: URL and status text\<close>
  | ReadCLDR                         \<comment> \<open>\<open>read CLDR data: %s\<close>\<close>
  | ParseCLDR                        \<comment> \<open>\<open>parse CLDR data: %s\<close>\<close>
  | NoEmojiCollation                 \<comment> \<open>\<open>no emoji collation found in %q\<close>\<close>
  | UnexpectedLineFormat string      \<comment> \<open>\<open>unexpected line format %q\<close>\<close>
  | NoAnnotation string              \<comment> \<open>\<open>emoji %q has no annotation\<close>\<close>
  | WriteFailed string               \<comment> \<open>\<open>write %q: %s\<close>\<close>
  | IOError string                   \<comment> \<open>an error of the network or the file system\<close>

text \<open>
  What a call does: it returns a value, returns an error, or panics at run time (the
  panic unwinds through every caller: none of them recovers).
\<close>

datatype 'a result = Ok 'a | Err error | Panic

section \<open>The emoji table parser\<close>

text \<open>
  The loop over \<open>codePoints\<close> in \<open>parseEmojiDataLine\<close>: each field is parsed as a
  hexadecimal code point; the first failure ends the function with an error.
\<close>

fun parseCodePoints :: "string list \<Rightarrow> rune list option" where
  "parseCodePoints [] = Some []"
| "parseCodePoints (codePointStr # rest) =
     (case ParseInt codePointStr of
        None \<Rightarrow> None
      | Some codePoint \<Rightarrow> map_option ((#) codePoint) (parseCodePoints rest))"

text \<open>
  \<open>parseEmojiDataLine\<close>. \<open>make([]string, 0, end-start+1)\<close> panics at run time when the
  capacity is negative; the loop \<open>for i := start; i <= end; i++\<close> is the list \<open>[start..end]\<close>.
  Both bounds fit 32 bits, so the capacity does not overflow; that memory suffices for
  the slice is assumed.
\<close>

definition parseEmojiDataLine :: "string \<Rightarrow> (string list \<times> string) result" where
  "parseEmojiDataLine line0 =
     (case Cut line0 ''#'' of
        (line, _, _) \<Rightarrow>
          if line = [] then Ok ([], [])
          else
            let parts = SplitN line '';'' 3 in
            if length parts < 2 then Err (ParseLine line)
            else
              let codePointsStr = TrimSpace (parts ! 0);
                  tag = TrimSpace (parts ! 1)
              in
                (case Cut codePointsStr ''..'' of
                   (startStr, endStr, True) \<Rightarrow>
                     (case ParseInt startStr of
                        None \<Rightarrow> Err (FailedToParseLine line)
                      | Some start \<Rightarrow>
                          (case ParseInt endStr of
                             None \<Rightarrow> Err (FailedToParseLine line)
                           | Some end \<Rightarrow>
                               if end - start + 1 < 0 then Panic
                               else Ok (map (\<lambda>i. stringOfRunes [i]) [start..end], tag)))
                 | (_, _, False) \<Rightarrow>
                     (case parseCodePoints (Split codePointsStr '' '') of
                        None \<Rightarrow> Err (FailedToParseLine line)
                      | Some emoji \<Rightarrow> Ok ([stringOfRunes emoji], tag))))"

section \<open>The emoji set builder\<close>

text \<open>
  What \<open>http.Get\<close> hands back: a failure, or a response with its \<open>StatusCode\<close>, its
  \<open>Status\<close> text and its body. The body of a table is read by a \<open>bufio.Scanner\<close>: the
  lines it yields, then the value of \<open>scanner.Err()\<close>.
\<close>

datatype 'b response = GetFails error | Response int string 'b

datatype scanned = Scanned "string list" "error option"

definition StatusOK :: int where
  "StatusOK = 200"

text \<open>The scanner loop of \<open>emojiModifiers\<close>.\<close>

fun modifiersLoop :: "string list \<Rightarrow> string list \<Rightarrow> error option \<Rightarrow> string list result" where
  "modifiersLoop modifiers [] scanErr =
     (case scanErr of None \<Rightarrow> Ok modifiers | Some e \<Rightarrow> Err e)"
| "modifiersLoop modifiers (line # rest) scanErr =
     (case parseEmojiDataLine line of
        Panic \<Rightarrow> Panic
      | Err e \<Rightarrow> Err e
      | Ok (emojis, tag) \<Rightarrow>
          modifiersLoop (if tag = ''Emoji_Modifier'' then modifiers @ emojis else modifiers)
            rest scanErr)"

definition emojiModifiers :: "string \<Rightarrow> scanned response \<Rightarrow> string list result" where
  "emojiModifiers emojiData resp =
     (case resp of
        GetFails e \<Rightarrow> Err e
      | Response code status (Scanned lines scanErr) \<Rightarrow>
          if code \<noteq> StatusOK then Err (GetStatus emojiData status)
          else modifiersLoop [] lines scanErr)"

text \<open>
  The scanner loop of \<open>emojisInFile\<close>. \<open>modifiers\<close> is the \<open>map[string]bool\<close>, read
  with \<open>modifiers[e]\<close>: \<open>False\<close> for an absent key.
\<close>

fun emojisLoop ::
  "(string \<Rightarrow> bool) \<Rightarrow> string list \<Rightarrow> string list \<Rightarrow> error option \<Rightarrow> string list result"
where
  "emojisLoop modifiers emojis [] scanErr =
     (case scanErr of None \<Rightarrow> Ok emojis | Some e \<Rightarrow> Err e)"
| "emojisLoop modifiers emojis (line # rest) scanErr =
     (case parseEmojiDataLine line of
        Panic \<Rightarrow> Panic
      | Err e \<Rightarrow> Err e
      | Ok (lineEmojis, _) \<Rightarrow>
          emojisLoop modifiers (emojis @ filter (\<lambda>e. \<not> modifiers e) lineEmojis) rest scanErr)"

definition emojisInFile ::
  "string \<Rightarrow> (string \<Rightarrow> bool) \<Rightarrow> scanned response \<Rightarrow> string list result"
where
  "emojisInFile url modifiers resp =
     (case resp of
        GetFails e \<Rightarrow> Err e
      | Response code status (Scanned lines scanErr) \<Rightarrow>
          if code \<noteq> StatusOK then Err (GetStatus url status)
          else emojisLoop modifiers [] lines scanErr)"

text \<open>The flags of the program, and what the network answers to each of its requests.\<close>

record flags =
  emojiData :: string
  emojiSequences :: string
  emojiZWJSequences :: string
  cldr :: string

text \<open>\<open>for _, m := range modifiersSlice { modifiers[m] = true }\<close> on an empty map.\<close>

fun modifiersMap :: "(string \<Rightarrow> bool) \<Rightarrow> string list \<Rightarrow> (string \<Rightarrow> bool)" where
  "modifiersMap modifiers [] = modifiers"
| "modifiersMap modifiers (m # ms) = modifiersMap (modifiers(m := True)) ms"

definition emojis ::
  "flags \<Rightarrow> scanned response \<Rightarrow> scanned response \<Rightarrow> scanned response \<Rightarrow> string list result"
where
  "emojis fl dataResp sequencesResp zwjResp =
     (case emojiModifiers (emojiData fl) dataResp of
        Panic \<Rightarrow> Panic
      | Err e \<Rightarrow> Err e
      | Ok modifiersSlice \<Rightarrow>
          let modifiers = modifiersMap (\<lambda>_. False) modifiersSlice in
          (case emojisInFile (emojiSequences fl) modifiers sequencesResp of
             Panic \<Rightarrow> Panic
           | Err e \<Rightarrow> Err e
           | Ok sequences \<Rightarrow>
               (case emojisInFile (emojiZWJSequences fl) modifiers zwjResp of
                  Panic \<Rightarrow> Panic
                | Err e \<Rightarrow> Err e
                | Ok zwjSequences \<Rightarrow> Ok (sequences @ zwjSequences))))"

section \<open>The annotation extractor\<close>

text \<open>
  One \<open><annotation>\<close> element as \<open>xml.Unmarshal\<close> delivers it: the \<open>cp\<close> and \<open>type\<close>
  attributes and the character data.
\<close>

record annotationElem =
  CP :: string
  Type :: string
  Annotation :: string

record emojiAnnotation =
  name :: string
  annotations :: "string list"

text \<open>
  A file of the CLDR archive after \<open>io.ReadAll\<close> and \<open>xml.Unmarshal\<close>: either step may
  fail; otherwise the list of elements the decoder found.
\<close>

datatype 'a xmlFile = ReadFails | UnmarshalFails | Parsed 'a

text \<open>
  The loop of \<open>annotationsInFile\<close>. The Go map holds pointers; each key gets its own
  \<open>new(emojiAnnotation)\<close> and no pointer is stored under two keys, so the map from keys to
  records is the whole store.
\<close>

definition keywordSep :: "rune \<Rightarrow> bool" where
  "keywordSep r = (r = 0x20 \<or> r = 0x7C)"

fun annotationsLoop ::
  "(string \<rightharpoonup> emojiAnnotation) \<Rightarrow> annotationElem list \<Rightarrow> (string \<rightharpoonup> emojiAnnotation)"
where
  "annotationsLoop emojiAnnotations [] = emojiAnnotations"
| "annotationsLoop emojiAnnotations (annotation # rest) =
     (let annotationData =
            (case emojiAnnotations (CP annotation) of
               None \<Rightarrow> \<lparr>name = [], annotations = []\<rparr>
             | Some d \<Rightarrow> d);
          updated =
            (if Type annotation = ''tts''
             then annotationData\<lparr>name := Annotation annotation\<rparr>
             else annotationData\<lparr>annotations :=
                    FieldsFunc (Annotation annotation) keywordSep\<rparr>)
      in annotationsLoop (emojiAnnotations(CP annotation \<mapsto> updated)) rest)"

definition annotationsInFile ::
  "annotationElem list xmlFile \<Rightarrow> (string \<rightharpoonup> emojiAnnotation) result"
where
  "annotationsInFile f =
     (case f of
        ReadFails \<Rightarrow> Err ReadCLDR
      | UnmarshalFails \<Rightarrow> Err ParseCLDR
      | Parsed elems \<Rightarrow> Ok (annotationsLoop Map.empty elems))"

text \<open>
  The three files the program opens in the CLDR archive; \<open>None\<close> when \<open>Open\<close> fails.
  A \<open>collation\<close> element is the pair of its \<open>type\<close> attribute and its \<open>cr\<close> text.
\<close>

record cldrData =
  annotationsFile :: "annotationElem list xmlFile option"
  annotationsDerivedFile :: "annotationElem list xmlFile option"
  collationFile :: "(string \<times> string) list xmlFile option"

text \<open>\<open>annotations\<close>: the derived file is copied over the primary one (\<open>maps.Copy\<close>).\<close>

definition annotationsOf :: "cldrData \<Rightarrow> (string \<rightharpoonup> emojiAnnotation) result" where
  "annotationsOf cldrData =
     (case annotationsFile cldrData of
        None \<Rightarrow> Err ReadCLDR
      | Some f \<Rightarrow>
          (case annotationsInFile f of
             Panic \<Rightarrow> Panic
           | Err e \<Rightarrow> Err e
           | Ok primary \<Rightarrow>
               (case annotationsDerivedFile cldrData of
                  None \<Rightarrow> Err ReadCLDR
                | Some g \<Rightarrow>
                    (case annotationsInFile g of
                       Panic \<Rightarrow> Panic
                     | Err e \<Rightarrow> Err e
                     | Ok derived \<Rightarrow> Ok (primary ++ derived)))))"

section \<open>The collation ranker\<close>

definition removePresentationSelector :: "string \<Rightarrow> string" where
  "removePresentationSelector emoji = ReplaceAll emoji [CHR 0xEF, CHR 0xB8, CHR 0x8F] []"

text \<open>The first \<open>collation\<close> element of type \<open>emoji\<close>; the empty string when none is.\<close>

fun findEmojiCollation :: "(string \<times> string) list \<Rightarrow> string" where
  "findEmojiCollation [] = []"
| "findEmojiCollation ((ty, cr) # rest) =
     (if ty = ''emoji'' then cr else findEmojiCollation rest)"

text \<open>\<open>collation[key] = count; count++\<close> for each key in turn (\<open>cnt\<close> is \<open>count\<close>).\<close>

fun assignRanks ::
  "(string \<rightharpoonup> int) \<times> int \<Rightarrow> string list \<Rightarrow> (string \<rightharpoonup> int) \<times> int"
where
  "assignRanks (collation, cnt) [] = (collation, cnt)"
| "assignRanks (collation, cnt) (key # keys) =
     assignRanks (collation(key \<mapsto> cnt), cnt + 1) keys"

definition ruleSep :: "rune \<Rightarrow> bool" where
  "ruleSep r = (r = 0x20 \<or> r = 0x3C \<or> r = 0x3D \<or> r = 0x27)"

text \<open>
  The keys one rule line assigns, in order: \<open>None\<close> for a line of unexpected format.
  A \<open><*\<close> line gives \<open>string([]rune{emoji})\<close> for each rune of \<open>line[2:]\<close>; another \<open><\<close>
  line gives \<open>removePresentationSelector(emoji)\<close> for each field of \<open>line[1:]\<close>.
\<close>

definition lineKeys :: "string \<Rightarrow> string list option" where
  "lineKeys line =
     (if line = [] \<or> HasPrefix line ''#'' \<or> HasPrefix line ''&'' then Some []
      else if HasPrefix line ''<*''
        then Some (map (\<lambda>emoji. stringOfRunes [emoji]) (runes (drop 2 line)))
      else if HasPrefix line ''<''
        then Some (map removePresentationSelector (FieldsFunc (drop 1 line) ruleSep))
      else None)"

text \<open>
  The state \<open>(collation, count)\<close> before the first line:
  \<open>collation := make(map[string]int)\<close> and \<open>count := 1\<close>.
\<close>

definition collationStart :: "(string \<rightharpoonup> int) \<times> int" where
  "collationStart = (Map.empty, 1)"

text \<open>
  The loop of \<open>collationData\<close> over the lines, on the state \<open>(collation, count)\<close>.
\<close>

fun collationLoop ::
  "(string \<rightharpoonup> int) \<times> int \<Rightarrow> string list \<Rightarrow> ((string \<rightharpoonup> int) \<times> int) result"
where
  "collationLoop st [] = Ok st"
| "collationLoop st (line # rest) =
     (case lineKeys line of
        None \<Rightarrow> Err (UnexpectedLineFormat line)
      | Some keys \<Rightarrow> collationLoop (assignRanks st keys) rest)"

definition collationData :: "cldrData \<Rightarrow> (string \<rightharpoonup> int) result" where
  "collationData cldrData =
     (case collationFile cldrData of
        None \<Rightarrow> Err ReadCLDR
      | Some ReadFails \<Rightarrow> Err ReadCLDR
      | Some UnmarshalFails \<Rightarrow> Err ParseCLDR
      | Some (Parsed collations) \<Rightarrow>
          let emojiCollation = findEmojiCollation collations in
          if emojiCollation = [] then Err NoEmojiCollation
          else
            (case collationLoop collationStart (Split emojiCollation [CHR 0x0A]) of
               Panic \<Rightarrow> Panic
             | Err e \<Rightarrow> Err e
             | Ok (collation, cnt) \<Rightarrow> Ok collation))"

text \<open>\<open>collationOrder\<close>; \<open>table\<close> is its parameter \<open>collationData\<close>.\<close>

function collationOrder :: "string \<Rightarrow> (string \<rightharpoonup> int) \<Rightarrow> int" where
  "collationOrder e table =
     (if e \<noteq> []
      then
        (case table (removePresentationSelector e) of
           Some n \<Rightarrow> n
         | None \<Rightarrow>
             (case DecodeLastRuneInString e of
                (_, wid) \<Rightarrow> collationOrder (take (length e - wid) e) table))
      else -1)"
  by pat_completeness auto
termination
  apply (relation "measure (\<lambda>(e, table). length e)")
   apply simp
  subgoal for e table r wid
    using DecodeLastRuneInString_size [of e] by (cases e) (auto simp: Suc_le_eq dest: sym)
  done

declare collationOrder.simps [simp del]

section \<open>The pipeline driver\<close>

text \<open>The comparison function that \<open>generate\<close> passes to \<open>slices.SortFunc\<close>.\<close>

definition cmpEmoji :: "(string \<rightharpoonup> int) \<Rightarrow> string \<Rightarrow> string \<Rightarrow> int" where
  "cmpEmoji collation e f =
     (let n = collationOrder e collation - collationOrder f collation in
      if n \<noteq> 0 then n else Compare e f)"

text \<open>
  \<open>slices.SortFunc\<close> sorts in place with an algorithm the library leaves open, and not
  stably. Its contract is \<open>sortedBy\<close>: the slice afterwards is a rearrangement of the
  slice before in which no element compares greater than a later one. \<open>SortFunc\<close> is one
  function that meets the contract (insertion from the right).
\<close>

definition sortedBy :: "('a \<Rightarrow> 'a \<Rightarrow> int) \<Rightarrow> 'a list \<Rightarrow> 'a list \<Rightarrow> bool" where
  "sortedBy cmp xs ys = (mset ys = mset xs \<and> sorted_wrt (\<lambda>a b. cmp a b \<le> 0) ys)"

fun insertBy :: "('a \<Rightarrow> 'a \<Rightarrow> int) \<Rightarrow> 'a \<Rightarrow> 'a list \<Rightarrow> 'a list" where
  "insertBy cmp x [] = [x]"
| "insertBy cmp x (y # ys) = (if cmp x y \<le> 0 then x # y # ys else y # insertBy cmp x ys)"

definition SortFunc :: "('a \<Rightarrow> 'a \<Rightarrow> int) \<Rightarrow> 'a list \<Rightarrow> 'a list" where
  "SortFunc cmp xs = foldr (insertBy cmp) xs []"

text \<open>\<open>slices.DeleteFunc\<close>: the elements for which \<open>del\<close> is false, in order.\<close>

definition DeleteFunc :: "'a list \<Rightarrow> ('a \<Rightarrow> bool) \<Rightarrow> 'a list" where
  "DeleteFunc s del = filter (\<lambda>x. \<not> del x) s"

text \<open>
  What one iteration of the printing loop writes to standard output for \<open>emoji\<close> with
  the record \<open>annotation\<close>, after the keywords have been filtered.
\<close>

definition printed :: "string \<Rightarrow> emojiAnnotation \<Rightarrow> string" where
  "printed emoji annotation =
     emoji @ '' '' @ name annotation
       @ (let joined = Join (annotations annotation) '' '' in
          if joined \<noteq> [] then '' '' @ joined else [])
       @ [CHR 0x0A]"

text \<open>
  The printing loop of \<open>generate\<close>. The filtered keyword list is written back through
  the pointer, so the map of annotations is threaded through the loop. The result is
  what was written to standard output, one entry per iteration that printed, and the
  error of the loop.
\<close>

fun printLoop ::
  "(string \<rightharpoonup> emojiAnnotation) \<Rightarrow> string list \<Rightarrow> string list \<times> error option"
where
  "printLoop anns [] = ([], None)"
| "printLoop anns (emoji # rest) =
     (case anns (removePresentationSelector emoji) of
        None \<Rightarrow> ([], Some (NoAnnotation emoji))
      | Some annotation \<Rightarrow>
          let filtered = annotation\<lparr>annotations :=
                DeleteFunc (annotations annotation) (\<lambda>s. Contains (name annotation) s)\<rparr>
          in
            (case printLoop (anns(removePresentationSelector emoji \<mapsto> filtered)) rest of
               (out, err) \<Rightarrow> (printed emoji filtered # out, err)))"

text \<open>
  The body of the CLDR response: \<open>io.ReadAll\<close> may fail, \<open>zip.NewReader\<close> may fail,
  otherwise the archive.
\<close>

datatype cldrBody = ReadAllFails error | NotAZip | Zip cldrData

text \<open>
  \<open>generate\<close>: what was written to standard output, and how the function ended
  (\<open>Ok ()\<close> for a nil error).
\<close>

definition generate ::
  "flags \<Rightarrow> scanned response \<Rightarrow> scanned response \<Rightarrow> scanned response \<Rightarrow> cldrBody response
     \<Rightarrow> string list \<times> unit result"
where
  "generate fl dataResp sequencesResp zwjResp cldrResp =
     (case emojis fl dataResp sequencesResp zwjResp of
        Panic \<Rightarrow> ([], Panic)
      | Err e \<Rightarrow> ([], Err e)
      | Ok ems \<Rightarrow>
          (case cldrResp of
             GetFails e \<Rightarrow> ([], Err e)
           | Response code status body \<Rightarrow>
               if code \<noteq> StatusOK then ([], Err (GetStatus (cldr fl) status))
               else
                 (case body of
                    ReadAllFails e \<Rightarrow> ([], Err e)
                  | NotAZip \<Rightarrow> ([], Err ReadCLDR)
                  | Zip cldrData \<Rightarrow>
                      (case annotationsOf cldrData of
                         Panic \<Rightarrow> ([], Panic)
                       | Err e \<Rightarrow> ([], Err e)
                       | Ok anns \<Rightarrow>
                           (case collationData cldrData of
                              Panic \<Rightarrow> ([], Panic)
                            | Err e \<Rightarrow> ([], Err e)
                            | Ok collation \<Rightarrow>
                                (case printLoop anns (SortFunc (cmpEmoji collation) ems) of
                                   (out, None) \<Rightarrow> (out, Ok ())
                                 | (out, Some e) \<Rightarrow> (out, Err e)))))))"

section \<open>The fetcher with a cache directory\<close>

text \<open>
  \<open>getCached\<close> exists in the two variants of the generator that take a cache directory.
  The file system is a map from paths to contents. \<open>os.Create\<close> makes the file empty,
  \<open>io.Copy\<close> leaves in it what it wrote before it stopped, \<open>os.Remove\<close> deletes it; the
  environment decides which calls fail.
\<close>

type_synonym fileSystem = "string \<rightharpoonup> string"

datatype download = Download string "error option"
  \<comment> \<open>what \<open>io.Copy\<close> writes to the file, and its error\<close>

record fetchEnv =
  statOther :: bool                   \<comment> \<open>\<open>os.Stat\<close> fails with an error other than \<open>ErrNotExist\<close>\<close>
  getResp :: "download response"      \<comment> \<open>\<open>http.Get\<close>\<close>
  mkdirAllErr :: "error option"       \<comment> \<open>\<open>os.MkdirAll\<close>\<close>
  createErr :: "error option"         \<comment> \<open>\<open>os.Create\<close>\<close>
  closeErr :: "error option"          \<comment> \<open>\<open>f.Close\<close>\<close>

text \<open>\<open>path.Base\<close>.\<close>

definition Base :: "string \<Rightarrow> string" where
  "Base path =
     (if path = [] then ''.''
      else
        let p1 = rev (dropWhile (\<lambda>c. c = CHR ''/'') (rev path));
            p2 = rev (takeWhile (\<lambda>c. c \<noteq> CHR ''/'') (rev p1))
        in if p2 = [] then ''/'' else p2)"

text \<open>
  \<open>getCached\<close> of the variant whose last statement is \<open>return cachePath, f.Close()\<close>.
\<close>

definition getCached ::
  "fetchEnv \<Rightarrow> fileSystem \<Rightarrow> string \<Rightarrow> string \<Rightarrow> fileSystem \<times> string result"
where
  "getCached env fs url cacheDir =
     (let cachePath = cacheDir @ ''/'' @ Base url in
      if statOther env \<or> fs cachePath \<noteq> None then (fs, Ok cachePath)
      else
        (case getResp env of
           GetFails e \<Rightarrow> (fs, Err e)
         | Response code status (Download written copyErr) \<Rightarrow>
             if code \<noteq> StatusOK then (fs, Err (GetStatus url status))
             else
               (case createErr env of
                  Some e \<Rightarrow> (fs, Err e)
                | None \<Rightarrow>
                    let created = fs(cachePath \<mapsto> []);
                        copied = created(cachePath \<mapsto> written)
                    in
                      (case copyErr of
                         Some e \<Rightarrow> (copied(cachePath := None), Err (WriteFailed cachePath))
                       | None \<Rightarrow>
                           (case closeErr env of
                              Some e \<Rightarrow> (copied, Err e)
                            | None \<Rightarrow> (copied, Ok cachePath))))))"

text \<open>
  \<open>getCached\<close> of the other variant, which calls \<open>os.MkdirAll\<close> before \<open>os.Create\<close>
  and removes the file when \<open>f.Close\<close> fails.
\<close>

definition getCached_mkdir ::
  "fetchEnv \<Rightarrow> fileSystem \<Rightarrow> string \<Rightarrow> string \<Rightarrow> fileSystem \<times> string result"
where
  "getCached_mkdir env fs url cacheDir =
     (let cachePath = cacheDir @ ''/'' @ Base url in
      if statOther env \<or> fs cachePath \<noteq> None then (fs, Ok cachePath)
      else
        (case getResp env of
           GetFails e \<Rightarrow> (fs, Err e)
         | Response code status (Download written copyErr) \<Rightarrow>
             if code \<noteq> StatusOK then (fs, Err (GetStatus url status))
             else
               (case mkdirAllErr env of
                  Some e \<Rightarrow> (fs, Err e)
                | None \<Rightarrow>
                    (case createErr env of
                       Some e \<Rightarrow> (fs, Err e)
                     | None \<Rightarrow>
                         let created = fs(cachePath \<mapsto> []);
                             copied = created(cachePath \<mapsto> written)
                         in
                           (case copyErr of
                              Some e \<Rightarrow>
                                (copied(cachePath := None), Err (WriteFailed cachePath))
                            | None \<Rightarrow>
                                (case closeErr env of
                                   Some e \<Rightarrow> (copied(cachePath := None), Err e)
                                 | None \<Rightarrow> (copied, Ok cachePath)))))))"

text \<open>
  The loop of \<open>annotationsInFile\<close> in the variants with a cache directory: the map holds
  records by value, and the keywords are \<open>strings.Split(_, "|")\<close> with \<open>strings.TrimSpace\<close>
  on each piece.
\<close>

fun annotationsLoop_split ::
  "(string \<rightharpoonup> emojiAnnotation) \<Rightarrow> annotationElem list \<Rightarrow> (string \<rightharpoonup> emojiAnnotation)"
where
  "annotationsLoop_split emojiAnnotations [] = emojiAnnotations"
| "annotationsLoop_split emojiAnnotations (annotation # rest) =
     (let annotationData =
            (case emojiAnnotations (CP annotation) of
               None \<Rightarrow> \<lparr>name = [], annotations = []\<rparr>
             | Some d \<Rightarrow> d);
          updated =
            (if Type annotation = ''tts''
             then annotationData\<lparr>name := Annotation annotation\<rparr>
             else annotationData\<lparr>annotations :=
                    map TrimSpace (Split (Annotation annotation) ''|'')\<rparr>)
      in annotationsLoop_split (emojiAnnotations(CP annotation \<mapsto> updated)) rest)"

section \<open>Notions of the specification\<close>

text \<open>
  The rank assignments of a run of keys, in the words of the specification: starting
  from the counter value \<open>n\<close>, the keys get the ranks \<open>n, n+1, ...\<close> in order.
  \<open>store\<close> writes a list of assignments into a table, later ones over earlier ones.
\<close>

definition assignments :: "int \<Rightarrow> string list \<Rightarrow> (string \<times> int) list" where
  "assignments n keys = zip keys [n .. n + int (length keys) - 1]"

definition store :: "(string \<times> int) list \<Rightarrow> (string \<rightharpoonup> int) \<Rightarrow> (string \<rightharpoonup> int)" where
  "store as table = fold (\<lambda>(key, rank) m. m(key \<mapsto> rank)) as table"

text \<open>All keys that a list of rule lines assigns, in file order.\<close>

definition assignedKeys :: "string list \<Rightarrow> string list" where
  "assignedKeys ls =
     concat (map (\<lambda>line. case lineKeys line of None \<Rightarrow> [] | Some keys \<Rightarrow> keys) ls)"

text \<open>The keys of a \<open><*\<close> line: one per character after the two-byte prefix.\<close>

definition starKeys :: "string \<Rightarrow> string list" where
  "starKeys line = map (\<lambda>emoji. stringOfRunes [emoji]) (runes (drop 2 line))"

text \<open>The presentation selector U+FE0F in UTF-8.\<close>

definition selector :: string where
  "selector = [CHR 0xEF, CHR 0xB8, CHR 0x8F]"

text \<open>Reading a table, or the order of an emoji, out of the result of \<open>collationData\<close>.\<close>

fun lookupRank :: "(string \<rightharpoonup> int) result \<Rightarrow> string \<Rightarrow> int option" where
  "lookupRank (Ok table) key = table key"
| "lookupRank (Err e) key = None"
| "lookupRank Panic key = None"

fun orderIn :: "(string \<rightharpoonup> int) result \<Rightarrow> string \<Rightarrow> int option" where
  "orderIn (Ok table) e = Some (collationOrder e table)"
| "orderIn (Err e') e = None"
| "orderIn Panic e = None"

text \<open>An archive whose collation file holds one \<open>emoji\<close> collation with the given rules.\<close>

definition collationFixture :: "string \<Rightarrow> cldrData" where
  "collationFixture rules =
     \<lparr>annotationsFile = None, annotationsDerivedFile = None,
      collationFile = Some (Parsed [(''emoji'', rules)])\<rparr>"

text \<open>
  The prefixes of an emoji that the lookup tries, in the words of the specification:
  the emoji itself, then what is left after dropping the last code point by its encoded
  width, and so on while the string is not empty.
\<close>

function shrinkPrefixes :: "string \<Rightarrow> string list" where
  "shrinkPrefixes e =
     (if e = [] then []
      else e # shrinkPrefixes (take (length e - snd (DecodeLastRuneInString e)) e))"
  by pat_completeness auto
termination
  apply (relation "measure length")
   apply simp
  subgoal for e
    using DecodeLastRuneInString_size [of e] by (cases e) (auto simp: Suc_le_eq)
  done

declare shrinkPrefixes.simps [simp del]

text \<open>
  A continuation byte, and the shape of the encoding of one rune: it decodes as one rune
  of its full length, and is either one ASCII byte or a lead byte followed by one to
  three continuation bytes.
\<close>

definition cont :: "char \<Rightarrow> bool" where
  "cont x = (0x80 \<le> byte x \<and> byte x \<le> 0xBF)"

definition wellEncoded :: "string \<Rightarrow> bool" where
  "wellEncoded enc =
     (snd (DecodeRuneInString enc) = length enc
      \<and> ((\<exists>c. enc = [c] \<and> byte c < 0x80)
         \<or> (\<exists>a rest. enc = a # rest \<and> rest \<noteq> [] \<and> length rest \<le> 3
               \<and> 0xC0 \<le> byte a \<and> (\<forall>x \<in> set rest. cont x))))"

text \<open>A prefix matches when its form without presentation selectors is a key.\<close>

definition matches :: "(string \<rightharpoonup> int) \<Rightarrow> string \<Rightarrow> bool" where
  "matches table p = (table (removePresentationSelector p) \<noteq> None)"

text \<open>Some emoji, in UTF-8: U+1F468, U+1F469, U+1F466 and the joiner U+200D.\<close>

definition man :: string where
  "man = [CHR 0xF0, CHR 0x9F, CHR 0x91, CHR 0xA8]"

definition woman :: string where
  "woman = [CHR 0xF0, CHR 0x9F, CHR 0x91, CHR 0xA9]"

definition boy :: string where
  "boy = [CHR 0xF0, CHR 0x9F, CHR 0x91, CHR 0xA6]"

definition zwj :: string where
  "zwj = [CHR 0xE2, CHR 0x80, CHR 0x8D]"

text \<open>
  The family of man, woman and boy, and the family of man, woman, boy and boy; a rule
  text that ranks the man first and the family of three second.
\<close>

definition family3 :: string where
  "family3 = man @ zwj @ woman @ zwj @ boy"

definition family4 :: string where
  "family4 = man @ zwj @ woman @ zwj @ boy @ zwj @ boy"

definition familyRules :: string where
  "familyRules = ''<*'' @ man @ [CHR 0x0A] @ ''<'' @ family3"

text \<open>A rule text of three lines: a comment, a line of single characters, a line of keys.\<close>

definition letterRules :: string where
  "letterRules = ''# faces'' @ [CHR 0x0A] @ ''<*ab'' @ [CHR 0x0A] @ ''<c < d''"

text \<open>
  The emoji parsed from a table, line by line, and the values that the property table
  tags \<open>Emoji_Modifier\<close>; the lines of a response body.
\<close>

definition parsedEmojis :: "string list \<Rightarrow> string list" where
  "parsedEmojis ls =
     concat (map (\<lambda>line. case parseEmojiDataLine line of
                            Ok (es, tag) \<Rightarrow> es | Err e \<Rightarrow> [] | Panic \<Rightarrow> []) ls)"

definition modifierSet :: "string list \<Rightarrow> string list" where
  "modifierSet ls =
     concat (map (\<lambda>line. case parseEmojiDataLine line of
                            Ok (es, tag) \<Rightarrow> if tag = ''Emoji_Modifier'' then es else []
                          | Err e \<Rightarrow> [] | Panic \<Rightarrow> []) ls)"

fun bodyLines :: "scanned response \<Rightarrow> string list" where
  "bodyLines (Response code status (Scanned ls scanErr)) = ls"
| "bodyLines (GetFails e) = []"

text \<open>
  Fixtures: the flags, a successful response with the given lines, the skin tone
  U+1F3FB and the thumbs up U+1F44D.
\<close>

definition someFlags :: flags where
  "someFlags = \<lparr>emojiData = ''emoji-data.txt'', emojiSequences = ''emoji-sequences.txt'',
                  emojiZWJSequences = ''emoji-zwj-sequences.txt'', cldr = ''cldr.zip''\<rparr>"

definition served :: "string list \<Rightarrow> scanned response" where
  "served ls = Response 200 ''200 OK'' (Scanned ls None)"

definition lightSkin :: string where
  "lightSkin = [CHR 0xF0, CHR 0x9F, CHR 0x8F, CHR 0xBB]"

definition thumbsUp :: string where
  "thumbsUp = [CHR 0xF0, CHR 0x9F, CHR 0x91, CHR 0x8D]"

definition dataLines :: "string list" where
  "dataLines = [''# emoji-data'', ''1F3FB..1F3FF  ; Emoji_Modifier  # skin tones'',
                ''1F44D         ; Emoji           # thumbs up'']"

definition sequenceLines :: "string list" where
  "sequenceLines = [''1F3FB       ; Basic_Emoji                 ; light skin tone'',
                    ''1F44D 1F3FB ; RGI_Emoji_Modifier_Sequence ; thumbs up: light skin tone'']"

definition zwjLines :: "string list" where
  "zwjLines = [''1F468 200D 1F469 200D 1F466 ; RGI_Emoji_ZWJ_Sequence ; family'']"

text \<open>
  The output of the driver in the words of the specification. An emoji is annotated when
  its selector-stripped form is a key of the merged annotation map. The annotation text
  is the name followed by the keywords that are not substrings of the name, separated by
  spaces; the output line is the emoji, a space, the annotation text and a newline.
\<close>

definition annotated :: "(string \<rightharpoonup> emojiAnnotation) \<Rightarrow> string \<Rightarrow> bool" where
  "annotated anns emoji = (anns (removePresentationSelector emoji) \<noteq> None)"

definition annotationText :: "emojiAnnotation \<Rightarrow> string" where
  "annotationText a =
     Join (name a # filter (\<lambda>s. \<not> sublist s (name a)) (annotations a)) '' ''"

definition outputLine :: "(string \<rightharpoonup> emojiAnnotation) \<Rightarrow> string \<Rightarrow> string" where
  "outputLine anns emoji =
     emoji @ '' '' @ annotationText (the (anns (removePresentationSelector emoji))) @ [CHR 0x0A]"

text \<open>The error for the first emoji of a list that is not annotated, if there is one.\<close>

definition firstMissing :: "(string \<rightharpoonup> emojiAnnotation) \<Rightarrow> string list \<Rightarrow> error option" where
  "firstMissing anns es =
     (case dropWhile (annotated anns) es of [] \<Rightarrow> None | e # _ \<Rightarrow> Some (NoAnnotation e))"

text \<open>The record that the printing loop writes back: the keywords filtered.\<close>

definition filteredAnn :: "emojiAnnotation \<Rightarrow> emojiAnnotation" where
  "filteredAnn a =
     a\<lparr>annotations := DeleteFunc (annotations a) (\<lambda>s. Contains (name a) s)\<rparr>"

text \<open>
  An archive with the given primary annotations, no derived ones, and the family rules
  as its emoji collation.
\<close>

definition cldrWith :: "annotationElem list \<Rightarrow> cldrData" where
  "cldrWith elems =
     \<lparr>annotationsFile = Some (Parsed elems), annotationsDerivedFile = Some (Parsed []),
      collationFile = Some (Parsed [(''emoji'', familyRules)])\<rparr>"

definition thumbsElems :: "annotationElem list" where
  "thumbsElems =
     [\<lparr>CP = thumbsUp @ lightSkin, Type = [], Annotation = ''like | light skin tone | thumbs up''\<rparr>,
      \<lparr>CP = thumbsUp @ lightSkin, Type = ''tts'', Annotation = ''thumbs up: light skin tone''\<rparr>]"

definition familyElems :: "annotationElem list" where
  "familyElems =
     [\<lparr>CP = family3, Type = [], Annotation = ''boy | family | man | woman''\<rparr>,
      \<lparr>CP = family3, Type = ''tts'', Annotation = ''family: man, woman, boy''\<rparr>]"

text \<open>
  A fetch into an empty cache directory in which the download and the write succeed and
  \<open>f.Close\<close> fails.
\<close>

definition closeFails :: fetchEnv where
  "closeFails =
     \<lparr>statOther = False,
      getResp = Response 200 ''200 OK'' (Download ''partial'' None),
      mkdirAllErr = None, createErr = None,
      closeErr = Some (IOError ''close: no space left on device'')\<rparr>"

section \<open>Ranks are assigned in file order\<close>

lemma assignments_Nil: "assignments n [] = []"
  by (simp add: assignments_def)

lemma assignments_Cons: "assignments n (key # keys) = (key, n) # assignments (n + 1) keys"
proof -
  have "[n .. n + int (length (key # keys)) - 1] = n # [n + 1 .. n + 1 + int (length keys) - 1]"
    by (subst upto_rec1) (simp_all add: add.commute add.left_commute)
  then show ?thesis by (simp add: assignments_def)
qed

lemma length_assignments: "length (assignments n keys) = length keys"
  by (simp add: assignments_def)

lemma ranks_of_assignments:
  "map snd (assignments n keys) = [n .. n + int (length keys) - 1]"
  by (simp add: assignments_def)

lemma keys_of_assignments: "map fst (assignments n keys) = keys"
  by (simp add: assignments_def)

lemma assignments_bounds:
  "(key, rank) \<in> set (assignments n keys) \<Longrightarrow> n \<le> rank \<and> rank < n + int (length keys)"
  by (auto simp: assignments_def dest!: set_zip_rightD)

lemma assignRanks_store:
  "assignRanks (table, n) keys = (store (assignments n keys) table, n + int (length keys))"
proof (induction keys arbitrary: table n)
  case Nil
  then show ?case by (simp add: assignments_Nil store_def)
next
  case (Cons key keys)
  then show ?case by (simp add: assignments_Cons store_def)
qed

lemma assignRanks_Nil: "assignRanks st [] = st"
  by (cases st) simp

lemma assignRanks_append:
  "assignRanks st (ks @ ks') = assignRanks (assignRanks st ks) ks'"
proof (induction ks arbitrary: st)
  case Nil
  then show ?case by (cases st) simp
next
  case (Cons k ks)
  then show ?case by (cases st) simp
qed

lemma store_lookup:
  "store as table key = Some rank \<Longrightarrow> table key = Some rank \<or> (key, rank) \<in> set as"
proof (induction as arbitrary: table)
  case Nil
  then show ?case by (simp add: store_def)
next
  case (Cons a as)
  obtain k r where a: "a = (k, r)" by (cases a)
  from Cons.prems have "store as (table(k \<mapsto> r)) key = Some rank"
    by (simp add: store_def a)
  from Cons.IH [OF this] show ?case
    by (auto simp: a split: if_splits)
qed

lemma collationLoop_append:
  "collationLoop st (ls @ ls') =
     (case collationLoop st ls of
        Ok st' \<Rightarrow> collationLoop st' ls' | Err e \<Rightarrow> Err e | Panic \<Rightarrow> Panic)"
  by (induction ls arbitrary: st) (auto split: option.splits)

lemma collationLoop_assignRanks:
  "collationLoop st ls = Ok st' \<Longrightarrow> st' = assignRanks st (assignedKeys ls)"
proof (induction ls arbitrary: st)
  case Nil
  then show ?case by (simp add: assignedKeys_def assignRanks_Nil)
next
  case (Cons line ls)
  then obtain keys where k: "lineKeys line = Some keys"
    by (cases "lineKeys line") auto
  with Cons.prems have "collationLoop (assignRanks st keys) ls = Ok st'" by simp
  from Cons.IH [OF this] have "st' = assignRanks (assignRanks st keys) (assignedKeys ls)" .
  moreover have "assignedKeys (line # ls) = keys @ assignedKeys ls"
    by (simp add: assignedKeys_def k)
  ultimately show ?case by (simp add: assignRanks_append)
qed

lemma lineKeys_star:
  assumes "HasPrefix line ''<*''"
  shows "lineKeys line = Some (starKeys line)"
proof -
  from assms obtain rest where line: "line = CHR ''<'' # CHR ''*'' # rest"
    by (cases line; cases "tl line") (auto simp: HasPrefix_def)
  show ?thesis
    by (simp add: line lineKeys_def HasPrefix_def starKeys_def)
qed

lemma collationLoop_ranks:
  assumes "collationLoop (Map.empty, 1) ls = Ok (collation, cnt)"
  shows "cnt = 1 + int (length (assignedKeys ls))"
    and "collation = store (assignments 1 (assignedKeys ls)) Map.empty"
    and "collation key = Some rank \<Longrightarrow> 1 \<le> rank \<and> rank < cnt"
proof -
  from collationLoop_assignRanks [OF assms]
  have eq: "(collation, cnt) =
      (store (assignments 1 (assignedKeys ls)) Map.empty, 1 + int (length (assignedKeys ls)))"
    by (simp add: assignRanks_store)
  then show c: "cnt = 1 + int (length (assignedKeys ls))"
    and m: "collation = store (assignments 1 (assignedKeys ls)) Map.empty"
    by simp_all
  assume "collation key = Some rank"
  with m have "(key, rank) \<in> set (assignments 1 (assignedKeys ls))"
    using store_lookup by fastforce
  from assignments_bounds [OF this] show "1 \<le> rank \<and> rank < cnt"
    by (simp add: c)
qed

lemma collationLoop_prefix:
  assumes "collationLoop st (ls @ rest) = Ok st'"
  shows "\<exists>st1. collationLoop st ls = Ok st1 \<and> collationLoop st1 rest = Ok st'"
proof (cases "collationLoop st ls")
  case (Ok st1)
  with assms show ?thesis by (simp add: collationLoop_append)
next
  case (Err e)
  with assms show ?thesis by (simp add: collationLoop_append)
next
  case Panic
  with assms show ?thesis by (simp add: collationLoop_append)
qed

lemma collationData_loop:
  assumes "collationData cldrData = Ok table"
  shows "\<exists>collations cnt. collationFile cldrData = Some (Parsed collations)
           \<and> collationLoop collationStart (Split (findEmojiCollation collations) [CHR 0x0A]) =
               Ok (table, cnt)"
  using assms
  by (auto simp: collationData_def Let_def
           split: option.splits xmlFile.splits if_splits result.splits)

lemma star_line_step:
  assumes "collationLoop st ls = Ok (collation, cnt)" and "HasPrefix line ''<*''"
  shows "collationLoop st (ls @ [line]) =
           Ok (store (assignments cnt (starKeys line)) collation,
               cnt + int (length (runes (drop 2 line))))"
    and "map snd (assignments cnt (starKeys line)) =
           [cnt .. cnt + int (length (runes (drop 2 line))) - 1]"
proof -
  have "collationLoop st (ls @ [line]) = collationLoop (collation, cnt) [line]"
    by (simp add: collationLoop_append assms(1))
  also have "\<dots> = Ok (assignRanks (collation, cnt) (starKeys line))"
    by (simp add: lineKeys_star [OF assms(2)])
  also have "\<dots> = Ok (store (assignments cnt (starKeys line)) collation,
                      cnt + int (length (runes (drop 2 line))))"
    by (simp add: assignRanks_store starKeys_def)
  finally show "collationLoop st (ls @ [line]) =
           Ok (store (assignments cnt (starKeys line)) collation,
               cnt + int (length (runes (drop 2 line))))" .
  show "map snd (assignments cnt (starKeys line)) =
           [cnt .. cnt + int (length (runes (drop 2 line))) - 1]"
    by (simp add: ranks_of_assignments) (simp add: starKeys_def)
qed

text \<open>
  C4. While \<open>collationData\<close> processes the emoji collation rule text line by line, the
  counter starts at 1 and grows by one per assigned key, in file order. Whenever
  \<open>collationData\<close> returns a table, the rule text is that of the collation file, and with
  \<open>lines\<close> its lines: the table is what the assignments \<open>1, 2, ...\<close> to the keys of all
  lines in file order leave. For every split of the lines into a prefix \<open>ls\<close> and the
  remaining lines \<open>rest\<close>, the loop of \<open>collationData\<close>, run from its start state over
  \<open>ls\<close>, reaches a state \<open>(collation, cnt)\<close> from which the remaining lines give the
  returned table; there the counter is 1 plus the number of keys assigned so far (so it
  is 1 before the first line), the table is what the assignments \<open>1, 2, ...\<close> to those
  keys leave, every stored rank lies in \<open>[1, cnt)\<close>, and when the next line is a \<open><*\<close>
  line with \<open>k\<close> characters, it assigns the ranks \<open>cnt, ..., cnt + k - 1\<close> to its keys and
  moves the counter to \<open>cnt + k\<close>.
\<close>

theorem rank_counter_invariant:
  assumes "collationData cldrData = Ok table"
  shows "\<exists>collations lines.
           collationFile cldrData = Some (Parsed collations)
         \<and> lines = Split (findEmojiCollation collations) [CHR 0x0A]
         \<and> table = store (assignments 1 (assignedKeys lines)) Map.empty
         \<and> (\<forall>ls rest. lines = ls @ rest \<longrightarrow>
              (\<exists>collation cnt.
                 collationLoop collationStart ls = Ok (collation, cnt)
               \<and> collationLoop (collation, cnt) rest =
                   Ok (table, 1 + int (length (assignedKeys lines)))
               \<and> cnt = 1 + int (length (assignedKeys ls))
               \<and> collation = store (assignments 1 (assignedKeys ls)) Map.empty
               \<and> (\<forall>key rank. collation key = Some rank \<longrightarrow> 1 \<le> rank \<and> rank < cnt)
               \<and> (\<forall>line after. rest = line # after \<and> HasPrefix line ''<*'' \<longrightarrow>
                     collationLoop collationStart (ls @ [line]) =
                       Ok (store (assignments cnt (starKeys line)) collation,
                           cnt + int (length (runes (drop 2 line))))
                     \<and> map snd (assignments cnt (starKeys line)) =
                         [cnt .. cnt + int (length (runes (drop 2 line))) - 1])))"
proof -
  from collationData_loop [OF assms] obtain collations total where
    parsed: "collationFile cldrData = Some (Parsed collations)" and
    run: "collationLoop collationStart (Split (findEmojiCollation collations) [CHR 0x0A]) =
            Ok (table, total)"
    by blast
  define lines where "lines = Split (findEmojiCollation collations) [CHR 0x0A]"
  from run have run': "collationLoop (Map.empty, 1) lines = Ok (table, total)"
    by (simp add: lines_def collationStart_def)
  note whole = collationLoop_ranks(1,2) [OF run']
  have parts: "\<exists>collation cnt.
         collationLoop collationStart ls = Ok (collation, cnt)
       \<and> collationLoop (collation, cnt) rest =
           Ok (table, 1 + int (length (assignedKeys lines)))
       \<and> cnt = 1 + int (length (assignedKeys ls))
       \<and> collation = store (assignments 1 (assignedKeys ls)) Map.empty
       \<and> (\<forall>key rank. collation key = Some rank \<longrightarrow> 1 \<le> rank \<and> rank < cnt)
       \<and> (\<forall>line after. rest = line # after \<and> HasPrefix line ''<*'' \<longrightarrow>
             collationLoop collationStart (ls @ [line]) =
               Ok (store (assignments cnt (starKeys line)) collation,
                   cnt + int (length (runes (drop 2 line))))
             \<and> map snd (assignments cnt (starKeys line)) =
                 [cnt .. cnt + int (length (runes (drop 2 line))) - 1])"
    if split: "lines = ls @ rest" for ls rest
  proof -
    from run' split have "collationLoop (Map.empty, 1) (ls @ rest) = Ok (table, total)"
      by simp
    from collationLoop_prefix [OF this] obtain collation cnt where
      pre: "collationLoop (Map.empty, 1) ls = Ok (collation, cnt)" and
      post: "collationLoop (collation, cnt) rest = Ok (table, total)"
      by (metis surj_pair)
    have start: "collationLoop collationStart ls = Ok (collation, cnt)"
      using pre by (simp add: collationStart_def)
    have "collationLoop (collation, cnt) rest =
            Ok (table, 1 + int (length (assignedKeys lines)))"
      using post whole(1) by simp
    moreover note collationLoop_ranks(1,2) [OF pre]
    moreover have "\<forall>key rank. collation key = Some rank \<longrightarrow> 1 \<le> rank \<and> rank < cnt"
      using collationLoop_ranks(3) [OF pre] by blast
    moreover have "\<forall>line after. rest = line # after \<and> HasPrefix line ''<*'' \<longrightarrow>
             collationLoop collationStart (ls @ [line]) =
               Ok (store (assignments cnt (starKeys line)) collation,
                   cnt + int (length (runes (drop 2 line))))
             \<and> map snd (assignments cnt (starKeys line)) =
                 [cnt .. cnt + int (length (runes (drop 2 line))) - 1]"
      using star_line_step [OF start] by blast
    ultimately show ?thesis using start by blast
  qed
  show ?thesis
    using parsed lines_def whole(2) parts by blast
qed

theorem rank_counter_invariant_witness:
  "collationData (collationFixture letterRules) =
     Ok (store (assignments 1 [''a'', ''b'', ''c'', ''d'']) Map.empty)
   \<and> Split letterRules [CHR 0x0A] = [''# faces''] @ [''<*ab'', ''<c < d'']
   \<and> collationLoop collationStart [''# faces''] = Ok (Map.empty, 1)
   \<and> collationLoop (Map.empty, 1) [''<*ab'', ''<c < d''] =
       Ok (store (assignments 1 [''a'', ''b'', ''c'', ''d'']) Map.empty, 5)
   \<and> collationLoop collationStart ([''# faces''] @ [''<*ab'']) =
       Ok (store (assignments 1 [''a'', ''b'']) Map.empty, 3)
   \<and> map snd (assignments 1 [''a'', ''b'']) = [1, 2]"
proof -
  let ?table = "store (assignments 1 [''a'', ''b'', ''c'', ''d'']) Map.empty"
  have sp: "Split letterRules [CHR 0x0A] = [''# faces''] @ [''<*ab'', ''<c < d'']"
    by code_simp
  have k1: "lineKeys ''# faces'' = Some []" by code_simp
  have k2: "lineKeys ''<*ab'' = Some [''a'', ''b'']" by code_simp
  have k3: "lineKeys ''<c < d'' = Some [''c'', ''d'']" by code_simp
  have ne: "letterRules \<noteq> []" by (simp add: letterRules_def)
  have loop: "collationLoop (Map.empty, 1) ([''# faces''] @ [''<*ab'', ''<c < d'']) =
      Ok (?table, 5)"
    by (simp add: k1 k2 k3 assignRanks_Nil assignments_Cons assignments_Nil store_def)
  have h: "collationData (collationFixture letterRules) = Ok ?table"
    by (simp add: collationData_def collationStart_def collationFixture_def ne sp loop
          del: collationLoop.simps append.simps)
  have p: "[''<*ab'', ''<c < d''] = ''<*ab'' # [''<c < d''] \<and> HasPrefix ''<*ab'' ''<*''"
    by code_simp
  have s: "starKeys ''<*ab'' = [''a'', ''b'']" by code_simp
  have r: "int (length (runes (drop 2 ''<*ab''))) = 2" by code_simp
  have keys: "assignedKeys [''# faces''] = []"
    by (simp add: assignedKeys_def k1)
  have total: "assignedKeys ([''# faces''] @ [''<*ab'', ''<c < d'']) = [''a'', ''b'', ''c'', ''d'']"
    by (simp add: assignedKeys_def k1 k2 k3)
  from rank_counter_invariant [OF h] obtain collations lines where
    parsed: "collationFile (collationFixture letterRules) = Some (Parsed collations)" and
    lines: "lines = Split (findEmojiCollation collations) [CHR 0x0A]" and
    "?table = store (assignments 1 (assignedKeys lines)) Map.empty" and
    parts: "\<forall>ls rest. lines = ls @ rest \<longrightarrow>
              (\<exists>collation cnt.
                 collationLoop collationStart ls = Ok (collation, cnt)
               \<and> collationLoop (collation, cnt) rest =
                   Ok (?table, 1 + int (length (assignedKeys lines)))
               \<and> cnt = 1 + int (length (assignedKeys ls))
               \<and> collation = store (assignments 1 (assignedKeys ls)) Map.empty
               \<and> (\<forall>key rank. collation key = Some rank \<longrightarrow> 1 \<le> rank \<and> rank < cnt)
               \<and> (\<forall>line after. rest = line # after \<and> HasPrefix line ''<*'' \<longrightarrow>
                     collationLoop collationStart (ls @ [line]) =
                       Ok (store (assignments cnt (starKeys line)) collation,
                           cnt + int (length (runes (drop 2 line))))
                     \<and> map snd (assignments cnt (starKeys line)) =
                         [cnt .. cnt + int (length (runes (drop 2 line))) - 1]))"
    by (elim exE conjE) (rule that)
  from parsed have "collations = [(''emoji'', letterRules)]"
    by (simp add: collationFixture_def)
  with lines sp have split: "lines = [''# faces''] @ [''<*ab'', ''<c < d'']"
    by (simp del: append.simps)
  from parts [rule_format, OF split] obtain collation cnt where
    pre: "collationLoop collationStart [''# faces''] = Ok (collation, cnt)" and
    post: "collationLoop (collation, cnt) [''<*ab'', ''<c < d''] =
             Ok (?table, 1 + int (length (assignedKeys lines)))" and
    cnt: "cnt = 1 + int (length (assignedKeys [''# faces'']))" and
    col: "collation = store (assignments 1 (assignedKeys [''# faces''])) Map.empty" and
    "\<forall>key rank. collation key = Some rank \<longrightarrow> 1 \<le> rank \<and> rank < cnt" and
    star: "\<forall>line after. [''<*ab'', ''<c < d''] = line # after \<and> HasPrefix line ''<*'' \<longrightarrow>
             collationLoop collationStart ([''# faces''] @ [line]) =
               Ok (store (assignments cnt (starKeys line)) collation,
                   cnt + int (length (runes (drop 2 line))))
             \<and> map snd (assignments cnt (starKeys line)) =
                 [cnt .. cnt + int (length (runes (drop 2 line))) - 1]"
    by (elim exE conjE) (rule that)
  from cnt keys have cnt1: "cnt = 1" by simp
  from col keys have col0: "collation = Map.empty"
    by (simp add: assignments_Nil store_def)
  have five: "1 + int (length (assignedKeys lines)) = 5"
    unfolding split total by simp
  have three: "(1::int) + 2 = 3" and upto: "[1 .. 3 - 1] = [1, 2::int]"
    by (simp_all add: upto_rec1)
  from star [rule_format, OF p] have
    "collationLoop collationStart ([''# faces''] @ [''<*ab'']) =
       Ok (store (assignments cnt (starKeys ''<*ab'')) collation,
           cnt + int (length (runes (drop 2 ''<*ab''))))
     \<and> map snd (assignments cnt (starKeys ''<*ab'')) =
         [cnt .. cnt + int (length (runes (drop 2 ''<*ab''))) - 1]" .
  then have step:
    "collationLoop collationStart ([''# faces''] @ [''<*ab'']) =
       Ok (store (assignments 1 [''a'', ''b'']) Map.empty, 3)
     \<and> map snd (assignments 1 [''a'', ''b'']) = [1, 2]"
    unfolding s r cnt1 col0 three upto .
  have before: "collationLoop collationStart [''# faces''] = Ok (Map.empty, 1)"
    using pre unfolding cnt1 col0 .
  have rest: "collationLoop (Map.empty, 1) [''<*ab'', ''<c < d''] = Ok (?table, 5)"
    using post unfolding cnt1 col0 five .
  from h sp before rest step show ?thesis
    by (intro conjI) (elim conjE, assumption)+
qed

section \<open>The encoding of one rune\<close>

lemma byte_char_of: "0 \<le> x \<Longrightarrow> x < 256 \<Longrightarrow> byte (char_of (x::int)) = x"
  by (simp add: byte_def)

lemma decode2:
  "leadInfo (byte a) = Some (2, lo, hi) \<Longrightarrow> 0x80 \<le> byte a \<Longrightarrow> lo \<le> byte b \<Longrightarrow> byte b \<le> hi
     \<Longrightarrow> snd (DecodeRuneInString [a, b]) = 2"
  by (simp add: DecodeRuneInString_def RuneSelf_def Let_def)

lemma decode3:
  "leadInfo (byte a) = Some (3, lo, hi) \<Longrightarrow> 0x80 \<le> byte a \<Longrightarrow> lo \<le> byte b \<Longrightarrow> byte b \<le> hi
     \<Longrightarrow> 0x80 \<le> byte c \<Longrightarrow> byte c \<le> 0xBF
     \<Longrightarrow> snd (DecodeRuneInString [a, b, c]) = 3"
  by (simp add: DecodeRuneInString_def RuneSelf_def Let_def)

lemma decode4:
  "leadInfo (byte a) = Some (4, lo, hi) \<Longrightarrow> 0x80 \<le> byte a \<Longrightarrow> lo \<le> byte b \<Longrightarrow> byte b \<le> hi
     \<Longrightarrow> 0x80 \<le> byte c \<Longrightarrow> byte c \<le> 0xBF \<Longrightarrow> 0x80 \<le> byte d \<Longrightarrow> byte d \<le> 0xBF
     \<Longrightarrow> snd (DecodeRuneInString [a, b, c, d]) = 4"
  by (simp add: DecodeRuneInString_def RuneSelf_def Let_def)

lemma lead2: "2 \<le> q \<Longrightarrow> q \<le> 31 \<Longrightarrow> leadInfo (0xC0 + q) = Some (2, 0x80, 0xBF)"
  by (simp add: leadInfo_def)

lemma lead3:
  "0 \<le> q \<Longrightarrow> q \<le> 15 \<Longrightarrow>
     leadInfo (0xE0 + q) = Some (3, if q = 0 then 0xA0 else 0x80, if q = 13 then 0x9F else 0xBF)"
  by (auto simp: leadInfo_def)

lemma lead4:
  "0 \<le> q \<Longrightarrow> q \<le> 4 \<Longrightarrow>
     leadInfo (0xF0 + q) = Some (4, if q = 0 then 0x90 else 0x80, if q = 4 then 0x8F else 0xBF)"
  by (auto simp: leadInfo_def)

lemma cont_byte: "byte (char_of (0x80 + (x::int) mod 64)) = 0x80 + x mod 64"
  "0x80 \<le> 0x80 + (x::int) mod 64" "0x80 + (x::int) mod 64 \<le> 0xBF"
proof -
  have "0 \<le> x mod 64" "x mod 64 < 64" by simp_all
  then show "byte (char_of (0x80 + x mod 64)) = 0x80 + x mod 64"
    "0x80 \<le> 0x80 + x mod 64" "0x80 + x mod 64 \<le> 0xBF"
    by (simp_all add: byte_char_of)
qed


lemma encode_width:
  "snd (DecodeRuneInString (encodeRune r)) = length (encodeRune r)"
proof -
  define q1 where "q1 = r div 64"
  define q2 where "q2 = q1 div 64"
  define q3 where "q3 = q2 div 64"
  have d2: "r div 4096 = q2" unfolding q2_def q1_def by (simp add: zdiv_zmult2_eq [symmetric])
  have d3: "r div 262144 = q3"
    unfolding q3_def q2_def q1_def by (simp add: zdiv_zmult2_eq [symmetric])
  have e1: "q1 = 64 * q2 + q1 mod 64" unfolding q2_def by simp
  have e2: "q2 = 64 * q3 + q2 mod 64" unfolding q3_def by simp
  have m1: "0 \<le> q1 mod 64" "q1 mod 64 < 64" and m2: "0 \<le> q2 mod 64" "q2 mod 64 < 64"
    by simp_all
  consider (a) "0 \<le> r \<and> r \<le> 0x7F" | (b) "0x7F < r \<and> r \<le> 0x7FF"
    | (bad) "r < 0 \<or> r > 0x10FFFF \<or> (0xD800 \<le> r \<and> r \<le> 0xDFFF)"
    | (c) "0x7FF < r \<and> r \<le> 0xFFFF \<and> \<not> (0xD800 \<le> r \<and> r \<le> 0xDFFF)"
    | (d) "0xFFFF < r \<and> r \<le> 0x10FFFF"
    by linarith
  then show ?thesis
  proof cases
    case a
    then have "encodeRune r = [char_of r]" by (simp add: encodeRune_def)
    moreover have "byte (char_of r) < 0x80" using a by (simp add: byte_char_of)
    ultimately show ?thesis by (simp add: DecodeRuneInString_def RuneSelf_def)
  next
    case b
    then have enc: "encodeRune r = [char_of (0xC0 + q1), char_of (0x80 + r mod 64)]"
      by (simp add: encodeRune_def q1_def)
    have "128 div 64 \<le> r div 64" using b by (intro zdiv_mono1) auto
    moreover have "r div 64 \<le> 2047 div 64" using b by (intro zdiv_mono1) auto
    ultimately have q: "2 \<le> q1" "q1 \<le> 31" by (simp_all add: q1_def)
    then have b0: "byte (char_of (0xC0 + q1)) = 0xC0 + q1" by (simp add: byte_char_of)
    have "snd (DecodeRuneInString
        [char_of (0xC0 + q1), char_of (0x80 + r mod 64)]) = 2"
      by (rule decode2 [where lo = "0x80" and hi = "0xBF"])
         (use q in \<open>simp_all add: b0 lead2 cont_byte\<close>)
    then show ?thesis by (simp add: enc)
  next
    case bad
    then have "encodeRune r = [CHR 0xEF, CHR 0xBF, CHR 0xBD]"
      by (auto simp: encodeRune_def)
    moreover have "snd (DecodeRuneInString [CHR 0xEF, CHR 0xBF, CHR 0xBD]) = 3" by code_simp
    ultimately show ?thesis by simp
  next
    case c
    then have enc: "encodeRune r =
        [char_of (0xE0 + q2), char_of (0x80 + q1 mod 64), char_of (0x80 + r mod 64)]"
      by (auto simp: encodeRune_def q1_def d2)
    have "2048 div 64 \<le> r div 64" using c by (intro zdiv_mono1) auto
    moreover have "r div 64 \<le> 65535 div 64" using c by (intro zdiv_mono1) auto
    ultimately have q1b: "32 \<le> q1" "q1 \<le> 1023" by (simp_all add: q1_def)
    have "32 div 64 \<le> q1 div 64" using q1b by (intro zdiv_mono1) auto
    moreover have "q1 div 64 \<le> 1023 div 64" using q1b by (intro zdiv_mono1) auto
    ultimately have q: "0 \<le> q2" "q2 \<le> 15" by (simp_all add: q2_def)
    then have b0: "byte (char_of (0xE0 + q2)) = 0xE0 + q2" by (simp add: byte_char_of)
    have lo: "q2 = 0 \<Longrightarrow> 32 \<le> q1 mod 64" using e1 q1b by simp
    have "q2 = 13 \<Longrightarrow> r < 0xD800"
    proof (rule ccontr)
      assume q13: "q2 = 13" and "\<not> r < 0xD800"
      with c have "0xDFFF < r" by simp
      then have "57344 div 64 \<le> r div 64" by (intro zdiv_mono1) auto
      then have "896 \<le> q1" by (simp add: q1_def)
      with e1 q13 m1 show False by simp
    qed
    then have "q2 = 13 \<Longrightarrow> q1 \<le> 55295 div 64"
      unfolding q1_def by (intro zdiv_mono1) auto
    then have hi: "q2 = 13 \<Longrightarrow> q1 mod 64 \<le> 31" using e1 by simp
    have "snd (DecodeRuneInString
        [char_of (0xE0 + q2), char_of (0x80 + q1 mod 64), char_of (0x80 + r mod 64)]) = 3"
      by (rule decode3 [where lo = "if q2 = 0 then 0xA0 else 0x80"
                          and hi = "if q2 = 13 then 0x9F else 0xBF"])
         (use q lo hi m1 in \<open>auto simp: b0 lead3 cont_byte\<close>)
    then show ?thesis by (simp add: enc)
  next
    case d
    then have enc: "encodeRune r =
        [char_of (0xF0 + q3), char_of (0x80 + q2 mod 64), char_of (0x80 + q1 mod 64),
         char_of (0x80 + r mod 64)]"
      by (auto simp: encodeRune_def q1_def d2 d3)
    have "65536 div 64 \<le> r div 64" using d by (intro zdiv_mono1) auto
    moreover have "r div 64 \<le> 1114111 div 64" using d by (intro zdiv_mono1) auto
    ultimately have q1b: "1024 \<le> q1" "q1 \<le> 17407" by (simp_all add: q1_def)
    have "1024 div 64 \<le> q1 div 64" using q1b by (intro zdiv_mono1) auto
    moreover have "q1 div 64 \<le> 17407 div 64" using q1b by (intro zdiv_mono1) auto
    ultimately have q2b: "16 \<le> q2" "q2 \<le> 271" by (simp_all add: q2_def)
    have "16 div 64 \<le> q2 div 64" using q2b by (intro zdiv_mono1) auto
    moreover have "q2 div 64 \<le> 271 div 64" using q2b by (intro zdiv_mono1) auto
    ultimately have q: "0 \<le> q3" "q3 \<le> 4" by (simp_all add: q3_def)
    then have b0: "byte (char_of (0xF0 + q3)) = 0xF0 + q3" by (simp add: byte_char_of)
    have lo: "q3 = 0 \<Longrightarrow> 16 \<le> q2 mod 64" using e2 q2b by simp
    have hi: "q3 = 4 \<Longrightarrow> q2 mod 64 \<le> 15" using e2 q2b by simp
    have "snd (DecodeRuneInString
        [char_of (0xF0 + q3), char_of (0x80 + q2 mod 64), char_of (0x80 + q1 mod 64),
         char_of (0x80 + r mod 64)]) = 4"
      by (rule decode4 [where lo = "if q3 = 0 then 0x90 else 0x80"
                          and hi = "if q3 = 4 then 0x8F else 0xBF"])
         (use q lo hi m2 in \<open>auto simp: b0 lead4 cont_byte\<close>)
    then show ?thesis by (simp add: enc)
  qed
qed

lemma cont_char_of: "cont (char_of (0x80 + (x::int) mod 64))"
  by (simp add: cont_def cont_byte)

lemma wellEncoded_encodeRune: "wellEncoded (encodeRune r)"
proof -
  define q1 where "q1 = r div 64"
  define q2 where "q2 = q1 div 64"
  define q3 where "q3 = q2 div 64"
  have d2: "r div 4096 = q2" unfolding q2_def q1_def by (simp add: zdiv_zmult2_eq [symmetric])
  have d3: "r div 262144 = q3"
    unfolding q3_def q2_def q1_def by (simp add: zdiv_zmult2_eq [symmetric])
  have nn: "0 \<le> r \<Longrightarrow> 0 \<le> q1 \<and> 0 \<le> q2 \<and> 0 \<le> q3"
    by (simp add: q1_def q2_def q3_def pos_imp_zdiv_nonneg_iff)
  consider (a) "0 \<le> r \<and> r \<le> 0x7F" | (b) "0x7F < r \<and> r \<le> 0x7FF"
    | (bad) "r < 0 \<or> r > 0x10FFFF \<or> (0xD800 \<le> r \<and> r \<le> 0xDFFF)"
    | (c) "0x7FF < r \<and> r \<le> 0xFFFF \<and> \<not> (0xD800 \<le> r \<and> r \<le> 0xDFFF)"
    | (d) "0xFFFF < r \<and> r \<le> 0x10FFFF"
    by linarith
  then have "(\<exists>c. encodeRune r = [c] \<and> byte c < 0x80)
         \<or> (\<exists>a rest. encodeRune r = a # rest \<and> rest \<noteq> [] \<and> length rest \<le> 3
               \<and> 0xC0 \<le> byte a \<and> (\<forall>x \<in> set rest. cont x))"
  proof cases
    case a
    then have "encodeRune r = [char_of r]" by (simp add: encodeRune_def)
    moreover have "byte (char_of r) < 0x80" using a by (simp add: byte_char_of)
    ultimately show ?thesis by blast
  next
    case b
    then have enc: "encodeRune r = [char_of (0xC0 + q1), char_of (0x80 + r mod 64)]"
      by (simp add: encodeRune_def q1_def)
    have "r div 64 \<le> 2047 div 64" using b by (intro zdiv_mono1) auto
    then have "q1 \<le> 31" by (simp add: q1_def)
    moreover have "0 \<le> q1" using b nn by simp
    ultimately have "byte (char_of (0xC0 + q1)) = 0xC0 + q1" by (simp add: byte_char_of)
    with \<open>0 \<le> q1\<close> show ?thesis by (simp add: enc cont_char_of)
  next
    case bad
    then have "encodeRune r = [CHR 0xEF, CHR 0xBF, CHR 0xBD]"
      by (auto simp: encodeRune_def)
    moreover have "0xC0 \<le> byte (CHR 0xEF)" "cont (CHR 0xBF)" "cont (CHR 0xBD)"
      by (simp_all add: cont_def byte_def)
    ultimately show ?thesis by simp
  next
    case c
    then have enc: "encodeRune r =
        [char_of (0xE0 + q2), char_of (0x80 + q1 mod 64), char_of (0x80 + r mod 64)]"
      by (auto simp: encodeRune_def q1_def d2)
    have "r div 64 \<le> 65535 div 64" using c by (intro zdiv_mono1) auto
    then have "q1 \<le> 1023" by (simp add: q1_def)
    then have "q1 div 64 \<le> 1023 div 64" by (intro zdiv_mono1) auto
    then have "q2 \<le> 15" by (simp add: q2_def)
    moreover have "0 \<le> q2" using c nn by simp
    ultimately have "byte (char_of (0xE0 + q2)) = 0xE0 + q2" by (simp add: byte_char_of)
    with \<open>0 \<le> q2\<close> show ?thesis by (simp add: enc cont_char_of)
  next
    case d
    then have enc: "encodeRune r =
        [char_of (0xF0 + q3), char_of (0x80 + q2 mod 64), char_of (0x80 + q1 mod 64),
         char_of (0x80 + r mod 64)]"
      by (auto simp: encodeRune_def q1_def d2 d3)
    have "r div 64 \<le> 1114111 div 64" using d by (intro zdiv_mono1) auto
    then have "q1 \<le> 17407" by (simp add: q1_def)
    then have "q1 div 64 \<le> 17407 div 64" by (intro zdiv_mono1) auto
    then have "q2 \<le> 271" by (simp add: q2_def)
    then have "q2 div 64 \<le> 271 div 64" by (intro zdiv_mono1) auto
    then have "q3 \<le> 4" by (simp add: q3_def)
    moreover have "0 \<le> q3" using d nn by simp
    ultimately have "byte (char_of (0xF0 + q3)) = 0xF0 + q3" by (simp add: byte_char_of)
    with \<open>0 \<le> q3\<close> show ?thesis by (simp add: enc cont_char_of)
  qed
  then show ?thesis by (simp add: wellEncoded_def encode_width)
qed

lemma scanBack_finds:
  assumes "lim \<le> p" and "p \<le> start" and "RuneStart (byte (s ! nat p))"
    and "\<forall>i. p < i \<and> i \<le> start \<longrightarrow> \<not> RuneStart (byte (s ! nat i))"
  shows "scanBack s lim start = p"
  using assms
proof (induction s lim start rule: scanBack.induct)
  case (1 s lim start)
  show ?case
  proof (cases "start = p")
    case True
    with "1.prems" show ?thesis by (subst scanBack.simps) simp
  next
    case False
    with "1.prems" have lt: "p < start" by simp
    with "1.prems" have ns: "\<not> RuneStart (byte (s ! nat start))" and ge: "lim \<le> start" by auto
    have "scanBack s lim (start - 1) = p"
      using "1.IH" [OF ge ns] "1.prems" lt by auto
    with ns ge show ?thesis by (subst scanBack.simps) simp
  qed
qed

lemma RuneStart_cont: "cont x \<Longrightarrow> \<not> RuneStart (byte x)"
  by (simp add: cont_def RuneStart_def) presburger

lemma byte_range: "0 \<le> byte c \<and> byte c < 256"
proof -
  have "byte c = int (of_char c)" by (simp add: byte_def of_nat_of_char)
  moreover have "(of_char c :: nat) < 256" by simp
  ultimately show ?thesis by simp
qed

lemma RuneStart_lead: "0xC0 \<le> byte a \<Longrightarrow> RuneStart (byte a)"
proof -
  assume a: "0xC0 \<le> byte a"
  have "byte a < 256" using byte_range by simp
  with a show ?thesis by (simp add: RuneStart_def)
qed


lemma DecodeLast_eq:
  assumes "s \<noteq> []"
    and "\<not> byte (s ! nat (int (length s) - 1)) < RuneSelf"
    and "scanBack s (if int (length s) - 4 < 0 then 0 else int (length s) - 4)
           (int (length s) - 1 - 1) = p"
    and "0 \<le> p"
    and "snd (DecodeRuneInString (drop (nat p) s)) = wid"
    and "p + int wid = int (length s)"
  shows "snd (DecodeLastRuneInString s) = wid"
  using assms
  by (simp add: DecodeLastRuneInString_def Let_def case_prod_beta)

lemma DecodeLast_append:
  assumes "wellEncoded enc"
  shows "snd (DecodeLastRuneInString (xs @ enc)) = length enc"
proof -
  from assms have w: "snd (DecodeRuneInString enc) = length enc"
    and forms: "(\<exists>c. enc = [c] \<and> byte c < 0x80)
         \<or> (\<exists>a rest. enc = a # rest \<and> rest \<noteq> [] \<and> length rest \<le> 3
               \<and> 0xC0 \<le> byte a \<and> (\<forall>x \<in> set rest. cont x))"
    by (simp_all add: wellEncoded_def)
  from forms show ?thesis
  proof
    assume "\<exists>c. enc = [c] \<and> byte c < 0x80"
    then obtain c where "enc = [c]" and "byte c < 0x80" by blast
    then show ?thesis
      by (simp add: DecodeLastRuneInString_def Let_def RuneSelf_def)
  next
    assume "\<exists>a rest. enc = a # rest \<and> rest \<noteq> [] \<and> length rest \<le> 3
               \<and> 0xC0 \<le> byte a \<and> (\<forall>x \<in> set rest. cont x)"
    then obtain a rest where enc: "enc = a # rest" and ne: "rest \<noteq> []"
      and len: "length rest \<le> 3" and lead: "0xC0 \<le> byte a"
      and cs: "\<forall>x \<in> set rest. cont x"
      by blast
    define s where "s = xs @ enc"
    have ls: "length s = length xs + length rest + 1" by (simp add: s_def enc)
    have s_ne: "s \<noteq> []" by (simp add: s_def enc)
    have "nat (int (length s) - 1) = length s - 1" by simp
    moreover have "s ! (length s - 1) = last s" using s_ne by (simp add: last_conv_nth)
    moreover have "last s = last rest" using ne by (simp add: s_def enc)
    ultimately have lastb: "s ! nat (int (length s) - 1) = last rest" by simp
    have "cont (last rest)" using cs ne by simp
    then have high: "\<not> byte (s ! nat (int (length s) - 1)) < RuneSelf"
      unfolding lastb by (simp add: cont_def RuneSelf_def)
    have nth_p: "s ! nat (int (length xs)) = a" by (simp add: s_def enc)
    have nth_c: "\<not> RuneStart (byte (s ! nat i))"
      if "int (length xs) < i" and "i \<le> int (length s) - 1 - 1" for i
    proof -
      define k where "k = nat i - length xs - 1"
      from that have i: "nat i = length xs + Suc k" and k: "k < length rest"
        by (auto simp: ls k_def)
      have "s ! nat i = rest ! k"
        unfolding i s_def enc by (simp add: nth_append)
      moreover have "rest ! k \<in> set rest" using k by simp
      ultimately show ?thesis using cs RuneStart_cont by simp
    qed
    have sb: "scanBack s (if int (length s) - 4 < 0 then 0 else int (length s) - 4)
           (int (length s) - 1 - 1) = int (length xs)"
    proof (rule scanBack_finds)
      show "(if int (length s) - 4 < 0 then 0 else int (length s) - 4) \<le> int (length xs)"
        using len by (simp add: ls)
      show "int (length xs) \<le> int (length s) - 1 - 1"
        using ne by (cases rest) (simp_all add: ls)
      show "RuneStart (byte (s ! nat (int (length xs))))"
        unfolding nth_p by (rule RuneStart_lead [OF lead])
      show "\<forall>i. int (length xs) < i \<and> i \<le> int (length s) - 1 - 1 \<longrightarrow>
              \<not> RuneStart (byte (s ! nat i))"
        using nth_c by blast
    qed
    have dr: "snd (DecodeRuneInString (drop (nat (int (length xs))) s)) = length enc"
      using w by (simp add: s_def)
    have pe: "int (length xs) + int (length enc) = int (length s)" by (simp add: s_def)
    from DecodeLast_eq [OF s_ne high sb _ dr pe] show ?thesis by (simp add: s_def)
  qed
qed

lemma Decode_append:
  assumes "wellEncoded enc"
  shows "snd (DecodeRuneInString (enc @ after)) = length enc"
proof -
  from assms have w: "snd (DecodeRuneInString enc) = length enc"
    and forms: "(\<exists>c. enc = [c] \<and> byte c < 0x80)
         \<or> (\<exists>a rest. enc = a # rest \<and> rest \<noteq> [] \<and> length rest \<le> 3
               \<and> 0xC0 \<le> byte a \<and> (\<forall>x \<in> set rest. cont x))"
    by (simp_all add: wellEncoded_def)
  from forms show ?thesis
  proof
    assume "\<exists>c. enc = [c] \<and> byte c < 0x80"
    then show ?thesis by (auto simp: DecodeRuneInString_def RuneSelf_def)
  next
    assume "\<exists>a rest. enc = a # rest \<and> rest \<noteq> [] \<and> length rest \<le> 3
               \<and> 0xC0 \<le> byte a \<and> (\<forall>x \<in> set rest. cont x)"
    then obtain a rest where enc: "enc = a # rest" and ne: "rest \<noteq> []"
      and len: "length rest \<le> 3"
      by blast
    from ne len consider b where "rest = [b]" | b c where "rest = [b, c]"
      | b c d where "rest = [b, c, d]"
      by (cases rest; cases "tl rest"; cases "tl (tl rest)"; cases "tl (tl (tl rest))") auto
    then show ?thesis
    proof cases
      case 1
      with w show ?thesis
        by (auto simp: enc DecodeRuneInString_def Let_def split: option.splits if_splits)
    next
      case 2
      with w show ?thesis
        by (auto simp: enc DecodeRuneInString_def Let_def split: option.splits if_splits)
    next
      case 3
      with w show ?thesis
        by (auto simp: enc DecodeRuneInString_def Let_def split: option.splits if_splits)
    qed
  qed
qed

section \<open>The lookup returns the rank of the longest matching prefix\<close>

lemma shrinkPrefixes_Nil: "shrinkPrefixes [] = []"
  by (subst shrinkPrefixes.simps) simp

lemma shrinkPrefixes_Cons:
  "e \<noteq> [] \<Longrightarrow>
     shrinkPrefixes e = e # shrinkPrefixes (take (length e - snd (DecodeLastRuneInString e)) e)"
  by (subst shrinkPrefixes.simps) simp

lemma shrinkPrefixes_prefix:
  "p \<in> set (shrinkPrefixes e) \<Longrightarrow> p \<noteq> [] \<and> prefix p e"
proof (induction e arbitrary: p rule: shrinkPrefixes.induct)
  case (1 e)
  show ?case
  proof (cases "e = []")
    case True
    with "1.prems" show ?thesis by (simp add: shrinkPrefixes_Nil)
  next
    case False
    let ?e' = "take (length e - snd (DecodeLastRuneInString e)) e"
    from "1.prems" False have "p = e \<or> p \<in> set (shrinkPrefixes ?e')"
      by (simp add: shrinkPrefixes_Cons)
    then show ?thesis
    proof
      assume "p = e"
      with False show ?thesis by simp
    next
      assume "p \<in> set (shrinkPrefixes ?e')"
      from "1.IH" [OF False this] have "p \<noteq> []" and "prefix p ?e'" by simp_all
      moreover have "prefix ?e' e" by (rule take_is_prefix)
      ultimately show ?thesis by (auto intro: prefix_order.trans)
    qed
  qed
qed

lemma shrinkPrefixes_decreasing:
  "sorted_wrt (\<lambda>p q. length q < length p) (shrinkPrefixes e)"
proof (induction e rule: shrinkPrefixes.induct)
  case (1 e)
  show ?case
  proof (cases "e = []")
    case True
    then show ?thesis by (simp add: shrinkPrefixes_Nil)
  next
    case False
    let ?e' = "take (length e - snd (DecodeLastRuneInString e)) e"
    have shorter: "length ?e' < length e"
      using DecodeLastRuneInString_size [OF False] False by (cases e) auto
    have "length q < length e" if "q \<in> set (shrinkPrefixes ?e')" for q
    proof -
      from shrinkPrefixes_prefix [OF that] have "prefix q ?e'" by simp
      then have "length q \<le> length ?e'" by (rule prefix_length_le)
      with shorter show ?thesis by simp
    qed
    with "1.IH" [OF False] False show ?thesis
      by (simp add: shrinkPrefixes_Cons)
  qed
qed

lemma collationOrder_find:
  "collationOrder e table =
     (case find (matches table) (shrinkPrefixes e) of
        None \<Rightarrow> -1
      | Some p \<Rightarrow> the (table (removePresentationSelector p)))"
proof (induction e rule: shrinkPrefixes.induct)
  case (1 e)
  show ?case
  proof (cases "e = []")
    case True
    then show ?thesis
      by (subst collationOrder.simps) (simp add: shrinkPrefixes_Nil)
  next
    case False
    let ?e' = "take (length e - snd (DecodeLastRuneInString e)) e"
    show ?thesis
    proof (cases "table (removePresentationSelector e)")
      case None
      then have "collationOrder e table = collationOrder ?e' table"
        using False by (subst collationOrder.simps) (simp add: case_prod_beta)
      with "1.IH" [OF False] None False show ?thesis
        by (simp add: shrinkPrefixes_Cons matches_def)
    next
      case (Some n)
      then have "collationOrder e table = n"
        using False by (subst collationOrder.simps) simp
      with Some False show ?thesis
        by (simp add: shrinkPrefixes_Cons matches_def)
    qed
  qed
qed

lemma find_longest:
  assumes "sorted_wrt (\<lambda>p q. length q < length p) xs"
  shows "(find P xs = None \<longleftrightarrow> (\<forall>p \<in> set xs. \<not> P p))
       \<and> (\<forall>p. find P xs = Some p \<longleftrightarrow>
             p \<in> set xs \<and> P p \<and> (\<forall>q \<in> set xs. P q \<longrightarrow> length q \<le> length p))"
  using assms
proof (induction xs)
  case Nil
  then show ?case by simp
next
  case (Cons x xs)
  then have IH: "(find P xs = None \<longleftrightarrow> (\<forall>p \<in> set xs. \<not> P p))"
      "\<And>p. find P xs = Some p \<longleftrightarrow>
             p \<in> set xs \<and> P p \<and> (\<forall>q \<in> set xs. P q \<longrightarrow> length q \<le> length p)"
    and shorter: "\<forall>q \<in> set xs. length q < length x"
    by simp_all
  show ?case
  proof (cases "P x")
    case True
    with shorter show ?thesis by (auto simp: less_imp_le dest: leD)
  next
    case False
    with IH shorter show ?thesis by auto
  qed
qed

lemma collationData_ranks:
  assumes "collationData cldrData = Ok table" and "table key = Some rank"
  shows "1 \<le> rank"
proof -
  from assms(1) obtain ls cnt where "collationLoop (Map.empty, 1) ls = Ok (table, cnt)"
    by (auto simp: collationData_def collationStart_def Let_def
             split: option.splits xmlFile.splits if_splits result.splits)
  from collationLoop_ranks(3) [OF this assms(2)] show ?thesis by simp
qed

lemma shrinkPrefixes_last:
  "e \<noteq> [] \<Longrightarrow>
     shrinkPrefixes e \<noteq> []
     \<and> snd (DecodeLastRuneInString (last (shrinkPrefixes e))) = length (last (shrinkPrefixes e))"
proof (induction e rule: shrinkPrefixes.induct)
  case (1 e)
  let ?e' = "take (length e - snd (DecodeLastRuneInString e)) e"
  from "1.prems" have eq: "shrinkPrefixes e = e # shrinkPrefixes ?e'"
    by (rule shrinkPrefixes_Cons)
  show ?case
  proof (cases "?e' = []")
    case True
    with "1.prems" have "length e \<le> snd (DecodeLastRuneInString e)" by (cases e) auto
    with DecodeLastRuneInString_size [OF "1.prems"]
    have "snd (DecodeLastRuneInString e) = length e" by simp
    with True eq show ?thesis by (simp add: shrinkPrefixes_Nil)
  next
    case False
    from "1.IH" [OF "1.prems" False] eq show ?thesis by simp
  qed
qed

lemma shrinkPrefixes_snoc:
  assumes "wellEncoded enc"
  shows "shrinkPrefixes (xs @ enc) = (xs @ enc) # shrinkPrefixes xs"
proof -
  from assms have "enc \<noteq> []" by (auto simp: wellEncoded_def)
  then have "xs @ enc \<noteq> []" by simp
  from shrinkPrefixes_Cons [OF this] DecodeLast_append [OF assms, of xs]
  show ?thesis by simp
qed

lemma stringOfRunes_snoc: "stringOfRunes (rs @ [r]) = stringOfRunes rs @ encodeRune r"
  by (simp add: stringOfRunes_def)

lemma shrinkPrefixes_stringOfRunes:
  "shrinkPrefixes (stringOfRunes rs) =
     map (\<lambda>k. stringOfRunes (take k rs)) (rev [1..<Suc (length rs)])"
proof (induction rs rule: rev_induct)
  case Nil
  then show ?case by (simp add: stringOfRunes_def shrinkPrefixes_Nil)
next
  case (snoc r rs)
  have "shrinkPrefixes (stringOfRunes (rs @ [r])) =
          stringOfRunes (rs @ [r]) # shrinkPrefixes (stringOfRunes rs)"
    by (simp add: stringOfRunes_snoc shrinkPrefixes_snoc wellEncoded_encodeRune)
  also have "\<dots> = stringOfRunes (rs @ [r])
                  # map (\<lambda>k. stringOfRunes (take k rs)) (rev [1..<Suc (length rs)])"
    by (simp add: snoc.IH)
  also have "map (\<lambda>k. stringOfRunes (take k rs)) (rev [1..<Suc (length rs)]) =
             map (\<lambda>k. stringOfRunes (take k (rs @ [r]))) (rev [1..<Suc (length rs)])"
    by (rule map_cong) auto
  finally show ?case by simp
qed

lemma shrinkPrefixes_first_rune:
  "rs \<noteq> [] \<Longrightarrow> last (shrinkPrefixes (stringOfRunes rs)) = stringOfRunes [hd rs]"
proof -
  assume ne: "rs \<noteq> []"
  then have lt: "(1::nat) < Suc (length rs)" by simp
  then have h1: "hd [1..<Suc (length rs)] = 1" by (rule hd_upt)
  from lt have u: "[1..<Suc (length rs)] \<noteq> []" by (simp del: upt_Suc)
  have "last (map (\<lambda>k. stringOfRunes (take k rs)) (rev [1..<Suc (length rs)])) =
          stringOfRunes (take (hd [1..<Suc (length rs)]) rs)"
    using u by (simp add: last_map last_rev del: upt_Suc)
  also note h1
  also have "take 1 rs = [hd rs]" using ne by (cases rs) simp_all
  finally show ?thesis by (simp add: shrinkPrefixes_stringOfRunes)
qed


lemma first_rune_prefix:
  "rs \<noteq> [] \<Longrightarrow>
     take (snd (DecodeRuneInString (stringOfRunes rs))) (stringOfRunes rs) = stringOfRunes [hd rs]"
proof -
  assume "rs \<noteq> []"
  then obtain r rs' where rs: "rs = r # rs'" by (cases rs) auto
  have "stringOfRunes rs = encodeRune r @ stringOfRunes rs'"
    by (simp add: rs stringOfRunes_def)
  with Decode_append [OF wellEncoded_encodeRune, of r "stringOfRunes rs'"]
  show ?thesis by (simp add: rs stringOfRunes_def)
qed

text \<open>
  C1, as amended. For every emoji \<open>e\<close> and every table built by \<open>collationData\<close>:
  the prefixes tried are non-empty prefixes of \<open>e\<close> of strictly decreasing length, the
  shortest of them being a single code point; if none matches, the result is \<open>-1\<close>;
  otherwise the result is the rank of the longest matching one, and it is at least 1, so
  never \<open>-1\<close>. For an emoji that is the encoding of a sequence of code points, as every
  parsed emoji is, the prefixes tried are the encodings of the leading code points, down
  to the first code point alone. In particular, when the single-code-point prefix
  matches, the result is its rank if no longer prefix matches, and the rank of the
  longest matching prefix otherwise.
\<close>

theorem collationOrder_longest_prefix:
  assumes "collationData cldrData = Ok table"
  shows "((\<forall>p \<in> set (shrinkPrefixes e). \<not> matches table p) \<longrightarrow> collationOrder e table = -1)
       \<and> (\<forall>p \<in> set (shrinkPrefixes e).
             matches table p
             \<and> (\<forall>q \<in> set (shrinkPrefixes e). matches table q \<longrightarrow> length q \<le> length p)
             \<longrightarrow> table (removePresentationSelector p) = Some (collationOrder e table))
       \<and> ((\<exists>p \<in> set (shrinkPrefixes e). matches table p) \<longrightarrow> 1 \<le> collationOrder e table)
       \<and> (\<forall>p \<in> set (shrinkPrefixes e). p \<noteq> [] \<and> prefix p e)
       \<and> sorted_wrt (\<lambda>p q. length q < length p) (shrinkPrefixes e)
       \<and> (e \<noteq> [] \<longrightarrow>
             last (shrinkPrefixes e) \<in> set (shrinkPrefixes e)
             \<and> snd (DecodeLastRuneInString (last (shrinkPrefixes e)))
                 = length (last (shrinkPrefixes e)))
       \<and> (\<forall>rs. e = stringOfRunes rs \<and> rs \<noteq> [] \<longrightarrow>
             shrinkPrefixes e =
               map (\<lambda>k. stringOfRunes (take k rs)) (rev [1..<Suc (length rs)])
             \<and> last (shrinkPrefixes e) = stringOfRunes [hd rs]
             \<and> take (snd (DecodeRuneInString e)) e = stringOfRunes [hd rs])"
proof -
  note dec = shrinkPrefixes_decreasing [of e]
  note fl = find_longest [OF dec, of "matches table"]
  have none: "collationOrder e table = -1" if "\<forall>p \<in> set (shrinkPrefixes e). \<not> matches table p"
  proof -
    from that fl have "find (matches table) (shrinkPrefixes e) = None" by blast
    then show ?thesis by (simp add: collationOrder_find)
  qed
  have longest: "table (removePresentationSelector p) = Some (collationOrder e table)"
    if "p \<in> set (shrinkPrefixes e)" and "matches table p"
      and "\<forall>q \<in> set (shrinkPrefixes e). matches table q \<longrightarrow> length q \<le> length p" for p
  proof -
    from that fl have "find (matches table) (shrinkPrefixes e) = Some p" by blast
    then have "collationOrder e table = the (table (removePresentationSelector p))"
      by (simp add: collationOrder_find)
    with that(2) show ?thesis by (auto simp: matches_def)
  qed
  have some: "1 \<le> collationOrder e table" if "\<exists>p \<in> set (shrinkPrefixes e). matches table p"
  proof -
    from that fl obtain p where f: "find (matches table) (shrinkPrefixes e) = Some p"
      by (cases "find (matches table) (shrinkPrefixes e)") auto
    with fl have "matches table p" by blast
    then obtain rank where r: "table (removePresentationSelector p) = Some rank"
      by (auto simp: matches_def)
    from f r have "collationOrder e table = rank" by (simp add: collationOrder_find)
    with collationData_ranks [OF assms r] show ?thesis by simp
  qed
  have last: "last (shrinkPrefixes e) \<in> set (shrinkPrefixes e)
      \<and> snd (DecodeLastRuneInString (last (shrinkPrefixes e))) = length (last (shrinkPrefixes e))"
    if "e \<noteq> []"
    using shrinkPrefixes_last [OF that] by simp
  have runes: "shrinkPrefixes e =
        map (\<lambda>k. stringOfRunes (take k rs)) (rev [1..<Suc (length rs)])
      \<and> last (shrinkPrefixes e) = stringOfRunes [hd rs]
      \<and> take (snd (DecodeRuneInString e)) e = stringOfRunes [hd rs]"
    if "e = stringOfRunes rs \<and> rs \<noteq> []" for rs
    using that shrinkPrefixes_stringOfRunes [of rs] shrinkPrefixes_first_rune [of rs]
      first_rune_prefix [of rs]
    by simp
  have basic: "((\<forall>p \<in> set (shrinkPrefixes e). \<not> matches table p) \<longrightarrow> collationOrder e table = -1)
       \<and> (\<forall>p \<in> set (shrinkPrefixes e).
             matches table p
             \<and> (\<forall>q \<in> set (shrinkPrefixes e). matches table q \<longrightarrow> length q \<le> length p)
             \<longrightarrow> table (removePresentationSelector p) = Some (collationOrder e table))
       \<and> ((\<exists>p \<in> set (shrinkPrefixes e). matches table p) \<longrightarrow> 1 \<le> collationOrder e table)
       \<and> (\<forall>p \<in> set (shrinkPrefixes e). p \<noteq> [] \<and> prefix p e)
       \<and> sorted_wrt (\<lambda>p q. length q < length p) (shrinkPrefixes e)
       \<and> (e \<noteq> [] \<longrightarrow>
             last (shrinkPrefixes e) \<in> set (shrinkPrefixes e)
             \<and> snd (DecodeLastRuneInString (last (shrinkPrefixes e)))
                 = length (last (shrinkPrefixes e)))"
    using none longest some last shrinkPrefixes_prefix dec by blast
  from basic runes show ?thesis by blast
qed

theorem collationOrder_longest_prefix_witness:
  "collationData (collationFixture familyRules) =
     Ok (store (assignments 1 [man, family3]) Map.empty)
   \<and> 1 \<le> collationOrder family4 (store (assignments 1 [man, family3]) Map.empty)
   \<and> collationOrder family4 (store (assignments 1 [man, family3]) Map.empty) = 2"
proof -
  let ?table = "store (assignments 1 [man, family3]) Map.empty"
  have sp: "Split familyRules [CHR 0x0A] = [CHR ''<'' # CHR ''*'' # man, CHR ''<'' # family3]" by code_simp
  have k1: "lineKeys (CHR ''<'' # CHR ''*'' # man) = Some [man]" by code_simp
  have k2: "lineKeys (CHR ''<'' # family3) = Some [family3]" by code_simp
  have ne: "familyRules \<noteq> []" by (simp add: familyRules_def)
  have loop: "collationLoop (Map.empty, 1) [CHR ''<'' # CHR ''*'' # man, CHR ''<'' # family3] = Ok (?table, 3)"
    using k1 k2 by (simp add: assignments_Cons assignments_Nil store_def)
  have h: "collationData (collationFixture familyRules) = Ok ?table"
    by (simp add: collationData_def collationStart_def collationFixture_def ne sp loop
          del: collationLoop.simps)
  have m: "matches ?table man" by code_simp
  have i: "man \<in> set (shrinkPrefixes family4)" by code_simp
  from collationOrder_longest_prefix [OF h, of family4] m i
  have "1 \<le> collationOrder family4 ?table" by blast
  moreover have "collationOrder family4 ?table = 2" by code_simp
  ultimately show ?thesis using h by simp
qed

text \<open>
  C1 as stated fails where a prefix longer than the single code point is a key. With the
  man ranked 1 and the family of three ranked 2, the family of four is not a key and its
  single-code-point prefix, the man, is; the lookup returns 2, the rank of the family of
  three, not the man's rank 1.
\<close>

theorem collationOrder_intermediate_prefix:
  "orderIn (collationData (collationFixture familyRules)) family4 = Some 2
   \<and> lookupRank (collationData (collationFixture familyRules))
         (removePresentationSelector family4) = None
   \<and> take (snd (DecodeRuneInString family4)) family4 = man
   \<and> lookupRank (collationData (collationFixture familyRules))
         (removePresentationSelector man) = Some 1"
  by code_simp

section \<open>The keys of a line of single characters\<close>

lemma char_of_eq_byte: "char_of (x::int) = c \<longleftrightarrow> x mod 256 = byte c"
  by (simp add: byte_def char_of_eq_iff take_bit_eq_mod)

lemma selector_bytes:
  "byte (CHR 0xEF) = 0xEF" "byte (CHR 0xB8) = 0xB8" "byte (CHR 0x8F) = 0x8F"
  by (simp_all add: byte_def)

lemma three_bytes_selector:
  assumes "(0xE0 + r div 4096) mod 256 = (0xEF::int)"
    and "(0x80 + (r div 64) mod 64) mod 256 = (0xB8::int)"
    and "(0x80 + r mod 64) mod 256 = (0x8F::int)"
    and "0x7FF < r \<and> r \<le> 0xFFFF"
  shows "r = 0xFE0F"
proof -
  define q where "q = r div 64"
  have q4096: "r div 4096 = q div 64"
    unfolding q_def by (simp add: zdiv_zmult2_eq [symmetric])
  have r_eq: "r = 64 * q + r mod 64" unfolding q_def by simp
  have q_eq: "q = 64 * (q div 64) + q mod 64" by simp
  have q0: "0 \<le> q" unfolding q_def using assms(4) by (simp add: pos_imp_zdiv_nonneg_iff)
  have "q \<le> 65535 div 64" unfolding q_def using assms(4) by (intro zdiv_mono1) auto
  then have q1: "q \<le> 1023" by simp
  have "q div 64 \<le> 1023 div 64" using q1 by (intro zdiv_mono1) auto
  then have qb: "0 \<le> q div 64" "q div 64 \<le> 15"
    using q0 by (simp_all add: pos_imp_zdiv_nonneg_iff)
  have m1: "0 \<le> q mod 64" "q mod 64 < 64" by simp_all
  have m0: "0 \<le> r mod 64" "r mod 64 < 64" by simp_all
  have a: "q div 64 = 15" using assms(1) qb by (simp add: q4096)
  have b: "q mod 64 = 56" using assms(2) m1 by (simp add: q_def [symmetric])
  have c: "r mod 64 = 15" using assms(3) m0 by simp
  show ?thesis using r_eq q_eq a b c by simp
qed

lemma encodeRune_selector: "encodeRune r = selector \<longleftrightarrow> r = 0xFE0F"
proof
  assume "r = 0xFE0F"
  moreover have "encodeRune 0xFE0F = selector" by code_simp
  ultimately show "encodeRune r = selector" by simp
next
  assume a: "encodeRune r = selector"
  show "r = 0xFE0F"
  proof (cases "0x7FF < r \<and> r \<le> 0xFFFF \<and> \<not> (0xD800 \<le> r \<and> r \<le> 0xDFFF)")
    case True
    with a have "(0xE0 + r div 4096) mod 256 = 0xEF"
      and "(0x80 + (r div 64) mod 64) mod 256 = 0xB8"
      and "(0x80 + r mod 64) mod 256 = 0x8F"
      by (simp_all add: encodeRune_def selector_def char_of_eq_byte selector_bytes)
    with True show ?thesis by (intro three_bytes_selector) simp_all
  next
    case False
    with a show ?thesis
      by (simp add: encodeRune_def selector_def split: if_splits)
  qed
qed

text \<open>
  C5, as amended. For every rule line beginning with \<open><*\<close>, each remaining character
  of the line becomes one key, the UTF-8 encoding of that single code point (the key
  decodes as one rune of its full length), stored as it is: the presentation selector is
  not stripped on this path, and the key of a listed U+FE0F is U+FE0F itself (no other
  key of such a line is the selector). The keys get the consecutive ranks
  \<open>cnt, cnt + 1, ...\<close> in the order of the line.
\<close>

theorem star_line_keys:
  assumes "HasPrefix line ''<*''"
  shows "lineKeys line = Some (map (\<lambda>emoji. stringOfRunes [emoji]) (runes (drop 2 line)))
       \<and> collationLoop (collation, cnt) [line] =
           Ok (store (assignments cnt (starKeys line)) collation,
               cnt + int (length (runes (drop 2 line))))
       \<and> map fst (assignments cnt (starKeys line)) = starKeys line
       \<and> map snd (assignments cnt (starKeys line)) =
           [cnt .. cnt + int (length (runes (drop 2 line))) - 1]
       \<and> (\<forall>r \<in> set (runes (drop 2 line)). stringOfRunes [r] = selector \<longleftrightarrow> r = 0xFE0F)
       \<and> (\<forall>key \<in> set (starKeys line). snd (DecodeRuneInString key) = length key)"
proof -
  have k: "lineKeys line = Some (starKeys line)"
    by (rule lineKeys_star [OF assms])
  have "collationLoop (collation, cnt) [line] = Ok (assignRanks (collation, cnt) (starKeys line))"
    by (simp add: k)
  then have loop: "collationLoop (collation, cnt) [line] =
      Ok (store (assignments cnt (starKeys line)) collation,
          cnt + int (length (runes (drop 2 line))))"
    by (simp add: assignRanks_store starKeys_def)
  have ranks: "map snd (assignments cnt (starKeys line)) =
      [cnt .. cnt + int (length (runes (drop 2 line))) - 1]"
    by (simp add: ranks_of_assignments) (simp add: starKeys_def)
  have sel: "stringOfRunes [r] = selector \<longleftrightarrow> r = 0xFE0F" for r
    by (simp add: stringOfRunes_def encodeRune_selector)
  have one: "\<forall>key \<in> set (starKeys line). snd (DecodeRuneInString key) = length key"
    by (auto simp: starKeys_def stringOfRunes_def encode_width)
  show ?thesis
    using k loop ranks sel one by (simp add: keys_of_assignments) (simp add: starKeys_def)
qed

theorem star_line_keys_witness:
  "HasPrefix (''<*'' @ man @ selector) ''<*''
   \<and> lineKeys (''<*'' @ man @ selector) = Some [man, selector]"
proof -
  have h: "HasPrefix (''<*'' @ man @ selector) ''<*''" by code_simp
  have "map (\<lambda>emoji. stringOfRunes [emoji]) (runes (drop 2 (''<*'' @ man @ selector)))
          = [man, selector]"
    by code_simp
  with star_line_keys [OF h, of Map.empty 1] h show ?thesis by simp
qed

text \<open>
  C5 as stated fails on a \<open><*\<close> line that lists U+FE0F: the key stored with rank 1 is
  the selector itself.
\<close>

theorem star_line_stores_selector:
  "lookupRank (collationData (collationFixture (''<*'' @ selector))) selector = Some 1
   \<and> Contains selector selector"
  by code_simp

section \<open>The built emoji set\<close>

lemma modifiersLoop_Ok:
  "modifiersLoop acc ls scanErr = Ok ms \<Longrightarrow> ms = acc @ modifierSet ls"
proof (induction ls arbitrary: acc)
  case Nil
  then show ?case by (simp add: modifierSet_def split: option.splits)
next
  case (Cons line ls)
  then obtain es tag where p: "parseEmojiDataLine line = Ok (es, tag)"
    by (cases "parseEmojiDataLine line") auto
  with Cons.prems
  have "modifiersLoop (if tag = ''Emoji_Modifier'' then acc @ es else acc) ls scanErr = Ok ms"
    by simp
  from Cons.IH [OF this] p show ?case by (simp add: modifierSet_def)
qed

lemma modifiersMap_member: "modifiersMap f ms e \<longleftrightarrow> f e \<or> e \<in> set ms"
  by (induction ms arbitrary: f) auto

lemma emojisLoop_Ok:
  "emojisLoop modifiers acc ls scanErr = Ok es \<Longrightarrow>
     es = acc @ filter (\<lambda>e. \<not> modifiers e) (parsedEmojis ls)"
proof (induction ls arbitrary: acc)
  case Nil
  then show ?case by (simp add: parsedEmojis_def split: option.splits)
next
  case (Cons line ls)
  then obtain les tag where p: "parseEmojiDataLine line = Ok (les, tag)"
    by (cases "parseEmojiDataLine line") auto
  with Cons.prems
  have "emojisLoop modifiers (acc @ filter (\<lambda>e. \<not> modifiers e) les) ls scanErr = Ok es"
    by simp
  from Cons.IH [OF this] p show ?case by (simp add: parsedEmojis_def)
qed

lemma emojiModifiers_Ok:
  "emojiModifiers url resp = Ok ms \<Longrightarrow> ms = modifierSet (bodyLines resp)"
  by (cases resp rule: bodyLines.cases)
     (auto simp: emojiModifiers_def dest: modifiersLoop_Ok split: if_splits)

lemma emojisInFile_Ok:
  "emojisInFile url modifiers resp = Ok es \<Longrightarrow>
     es = filter (\<lambda>e. \<not> modifiers e) (parsedEmojis (bodyLines resp))"
  by (cases resp rule: bodyLines.cases)
     (auto simp: emojisInFile_def dest: emojisLoop_Ok split: if_splits)

text \<open>
  C3. When \<open>emojis\<close> returns the built set, it is the emoji parsed from the sequence
  table followed by those parsed from the ZWJ-sequence table, keeping every value except
  those in the modifier set (the values tagged \<open>Emoji_Modifier\<close> in the property table).
  No member of the modifier set is an entry of the built set, and every other parsed
  value, sequences that contain a modifier included, is kept.
\<close>

theorem emojis_built_set:
  assumes "emojis fl dataResp sequencesResp zwjResp = Ok built"
  shows "built =
           filter (\<lambda>e. e \<notin> set (modifierSet (bodyLines dataResp)))
             (parsedEmojis (bodyLines sequencesResp))
           @ filter (\<lambda>e. e \<notin> set (modifierSet (bodyLines dataResp)))
               (parsedEmojis (bodyLines zwjResp))
       \<and> (\<forall>m \<in> set (modifierSet (bodyLines dataResp)). m \<notin> set built)
       \<and> (\<forall>e \<in> set (parsedEmojis (bodyLines sequencesResp))
                   \<union> set (parsedEmojis (bodyLines zwjResp)).
             e \<notin> set (modifierSet (bodyLines dataResp)) \<longrightarrow> e \<in> set built)"
proof -
  let ?M = "modifierSet (bodyLines dataResp)"
  let ?mods = "modifiersMap (\<lambda>_. False) ?M"
  from assms obtain ms where ms: "emojiModifiers (emojiData fl) dataResp = Ok ms"
    by (cases "emojiModifiers (emojiData fl) dataResp") (auto simp: emojis_def)
  then have msM: "ms = ?M" by (rule emojiModifiers_Ok)
  from assms ms msM obtain sequences
    where sq: "emojisInFile (emojiSequences fl) ?mods sequencesResp = Ok sequences"
    by (cases "emojisInFile (emojiSequences fl) ?mods sequencesResp")
       (auto simp: emojis_def Let_def)
  from assms ms msM sq obtain zwjSequences
    where zw: "emojisInFile (emojiZWJSequences fl) ?mods zwjResp = Ok zwjSequences"
    by (cases "emojisInFile (emojiZWJSequences fl) ?mods zwjResp")
       (auto simp: emojis_def Let_def)
  from assms ms msM sq zw have b: "built = sequences @ zwjSequences"
    by (simp add: emojis_def Let_def)
  have mem: "(\<lambda>e. \<not> ?mods e) = (\<lambda>e. e \<notin> set ?M)"
    by (simp add: modifiersMap_member)
  from emojisInFile_Ok [OF sq] emojisInFile_Ok [OF zw] b
  have eq: "built = filter (\<lambda>e. e \<notin> set ?M) (parsedEmojis (bodyLines sequencesResp))
                  @ filter (\<lambda>e. e \<notin> set ?M) (parsedEmojis (bodyLines zwjResp))"
    by (simp add: mem)
  then have "set built = {e \<in> set (parsedEmojis (bodyLines sequencesResp))
                           \<union> set (parsedEmojis (bodyLines zwjResp)). e \<notin> set ?M}"
    by auto
  with eq show ?thesis by blast
qed

theorem emojis_built_set_witness:
  "emojis someFlags (served dataLines) (served sequenceLines) (served zwjLines) =
     Ok [thumbsUp @ lightSkin, family3]
   \<and> lightSkin \<in> set (modifierSet (bodyLines (served dataLines)))
   \<and> lightSkin \<in> set (parsedEmojis (bodyLines (served sequenceLines)))
   \<and> lightSkin \<notin> set [thumbsUp @ lightSkin, family3]"
proof -
  have h: "emojis someFlags (served dataLines) (served sequenceLines) (served zwjLines) =
      Ok [thumbsUp @ lightSkin, family3]"
    by code_simp
  have m: "lightSkin \<in> set (modifierSet (bodyLines (served dataLines)))" by code_simp
  have p: "lightSkin \<in> set (parsedEmojis (bodyLines (served sequenceLines)))" by code_simp
  from emojis_built_set [OF h] m have "lightSkin \<notin> set [thumbsUp @ lightSkin, family3]"
    by blast
  with h m p show ?thesis by blast
qed

section \<open>The keyword list of an annotation\<close>

lemma annotationsLoop_append:
  "annotationsLoop m (xs @ ys) = annotationsLoop (annotationsLoop m xs) ys"
  by (induction xs arbitrary: m) (simp_all add: Let_def)

lemma annotationsLoop_keeps_keywords:
  assumes "\<forall>b \<in> set post. CP b = cp \<longrightarrow> Type b = ''tts''" and "m cp = Some d"
  shows "map_option annotations (annotationsLoop m post cp) = Some (annotations d)"
  using assms
proof (induction post arbitrary: m d)
  case Nil
  then show ?case by simp
next
  case (Cons b post)
  let ?m' = "annotationsLoop m [b]"
  have step: "annotationsLoop m (b # post) = annotationsLoop ?m' post"
    by (simp add: Let_def)
  have "\<exists>d'. ?m' cp = Some d' \<and> annotations d' = annotations d"
    using Cons.prems by (auto simp: Let_def)
  then obtain d' where d': "?m' cp = Some d'" "annotations d' = annotations d" by blast
  from Cons.prems(1) have "\<forall>b \<in> set post. CP b = cp \<longrightarrow> Type b = ''tts''" by simp
  from Cons.IH [of ?m' d', OF this d'(1)] d'(2) step show ?case by simp
qed

lemma annotationsLoop_split_append:
  "annotationsLoop_split m (xs @ ys) = annotationsLoop_split (annotationsLoop_split m xs) ys"
  by (induction xs arbitrary: m) (simp_all add: Let_def)

lemma annotationsLoop_split_keeps_keywords:
  assumes "\<forall>b \<in> set post. CP b = cp \<longrightarrow> Type b = ''tts''" and "m cp = Some d"
  shows "map_option annotations (annotationsLoop_split m post cp) = Some (annotations d)"
  using assms
proof (induction post arbitrary: m d)
  case Nil
  then show ?case by simp
next
  case (Cons b post)
  let ?m' = "annotationsLoop_split m [b]"
  have step: "annotationsLoop_split m (b # post) = annotationsLoop_split ?m' post"
    by (simp add: Let_def)
  have "\<exists>d'. ?m' cp = Some d' \<and> annotations d' = annotations d"
    using Cons.prems by (auto simp: Let_def)
  then obtain d' where d': "?m' cp = Some d'" "annotations d' = annotations d" by blast
  from Cons.prems(1) have "\<forall>b \<in> set post. CP b = cp \<longrightarrow> Type b = ''tts''" by simp
  from Cons.IH [of ?m' d', OF this d'(1)] d'(2) step show ?case by simp
qed

text \<open>
  In the variant of the extractor that splits on \<open>|\<close> and trims, the keyword list stored
  for a key is that of its last element that is not \<open>tts\<close>.
\<close>

lemma annotationsLoop_split_last_writer:
  assumes "Type a \<noteq> ''tts''"
    and "\<forall>b \<in> set post. CP b = CP a \<longrightarrow> Type b = ''tts''"
  shows "map_option annotations (annotationsLoop_split m (pre @ a # post) (CP a)) =
           Some (map TrimSpace (Split (Annotation a) ''|''))"
proof -
  let ?m1 = "annotationsLoop_split m pre"
  let ?m2 = "annotationsLoop_split ?m1 [a]"
  have "\<exists>d. ?m2 (CP a) = Some d
          \<and> annotations d = map TrimSpace (Split (Annotation a) ''|'')"
    using assms(1) by (simp add: Let_def)
  then obtain d where d: "?m2 (CP a) = Some d"
      "annotations d = map TrimSpace (Split (Annotation a) ''|'')"
    by blast
  have "annotationsLoop_split m (pre @ a # post) = annotationsLoop_split ?m2 post"
    by (simp add: annotationsLoop_split_append Let_def)
  with annotationsLoop_split_keeps_keywords [where m = ?m2 and d = d, OF assms(2) d(1)] d(2)
  show ?thesis by simp
qed

lemma leadInfo_Some:
  "leadInfo s0 = Some (sz, lo, hi) \<Longrightarrow> 2 \<le> sz \<and> sz \<le> 4 \<and> 0x80 \<le> lo \<and> hi \<le> 0xBF \<and> 0xC2 \<le> s0"
  by (auto simp: leadInfo_def split: if_splits)

lemma decode_width_one:
  "DecodeRuneInString (c # cs) = (r, wid) \<Longrightarrow> byte c < 0x80 \<Longrightarrow> r = byte c \<and> wid = 1"
  by (simp add: DecodeRuneInString_def RuneSelf_def)

lemma decode_high:
  assumes "DecodeRuneInString (c # cs) = (r, wid)" and "0x80 \<le> byte c"
  shows "wid \<le> length (c # cs) \<and> (\<forall>i < wid. 0x80 \<le> byte ((c # cs) ! i))"
proof (cases "leadInfo (byte c)")
  case None
  with assms show ?thesis by (auto simp: DecodeRuneInString_def RuneSelf_def)
next
  case (Some t)
  obtain sz lo hi where t: "t = (sz, lo, hi)" by (cases t)
  note li = leadInfo_Some [OF Some [unfolded t]]
  have three: "i < 3 \<longleftrightarrow> i = 0 \<or> i = 1 \<or> i = 2" for i :: nat by arith
  have four: "i < 4 \<longleftrightarrow> i = 0 \<or> i = 1 \<or> i = 2 \<or> i = 3" for i :: nat by arith
  have two: "i < 2 \<longleftrightarrow> i = 0 \<or> i = 1" for i :: nat by arith
  from assms Some t li show ?thesis
    by (auto simp: DecodeRuneInString_def RuneSelf_def Let_def two three four Suc_le_eq
             split: if_splits)
qed


lemma chunk_no_sep:
  assumes d: "DecodeRuneInString (c # cs) = (r, wid)" and nf: "\<not> f r"
    and high: "\<And>v. 0x80 \<le> v \<Longrightarrow> \<not> f v"
  shows "\<forall>x \<in> set (take wid (c # cs)). \<not> f (byte x)"
proof (cases "byte c < 0x80")
  case True
  from decode_width_one [OF d True] nf show ?thesis by simp
next
  case False
  then have h: "0x80 \<le> byte c" by simp
  from decode_high [OF d h]
  have len: "wid \<le> length (c # cs)" and hi: "\<forall>i < wid. 0x80 \<le> byte ((c # cs) ! i)"
    by simp_all
  show ?thesis
  proof
    fix x assume "x \<in> set (take wid (c # cs))"
    then obtain i where "i < wid" and "x = (c # cs) ! i"
      using len by (auto simp: in_set_conv_nth)
    with hi high show "\<not> f (byte x)" by blast
  qed
qed

lemma fieldsLoop_fields:
  "\<forall>v. 0x80 \<le> v \<longrightarrow> \<not> f v \<Longrightarrow> \<forall>x \<in> set cur. \<not> f (byte x) \<Longrightarrow>
     \<forall>w \<in> set (fieldsLoop f cur s). w \<noteq> [] \<and> (\<forall>x \<in> set w. \<not> f (byte x))"
proof (induction f cur s rule: fieldsLoop.induct)
  case (1 f cur)
  then show ?case by simp
next
  case (2 f cur c cs)
  note high = "2.prems"(1)
  obtain r wid where d: "DecodeRuneInString (c # cs) = (r, wid)"
    by (cases "DecodeRuneInString (c # cs)")
  show ?case
  proof (cases "f r")
    case True
    have e: "\<forall>x \<in> set []. \<not> f (byte x)" by simp
    have "\<forall>w \<in> set (fieldsLoop f [] (drop (wid - 1) cs)).
            w \<noteq> [] \<and> (\<forall>x \<in> set w. \<not> f (byte x))"
    proof (cases "cur = []")
      case Nil: True
      from "2.IH"(1) [OF d [symmetric] \<open>f r\<close> Nil high e] show ?thesis .
    next
      case False
      from "2.IH"(2) [OF d [symmetric] \<open>f r\<close> False high e] show ?thesis .
    qed
    with True d "2.prems" show ?thesis by simp
  next
    case False
    have "\<forall>x \<in> set (take wid (c # cs)). \<not> f (byte x)"
      by (rule chunk_no_sep [where f = f, OF d False]) (use high in blast)
    with "2.prems"(2) have "\<forall>x \<in> set (cur @ take wid (c # cs)). \<not> f (byte x)" by auto
    from "2.IH"(3) [OF d [symmetric] False high this] False d show ?thesis by simp
  qed
qed

lemma FieldsFunc_keywordSep:
  "\<forall>w \<in> set (FieldsFunc s keywordSep). w \<noteq> [] \<and> CHR '' '' \<notin> set w \<and> CHR ''|'' \<notin> set w"
proof -
  have high: "\<forall>v. 0x80 \<le> v \<longrightarrow> \<not> keywordSep v" by (simp add: keywordSep_def)
  have "\<forall>w \<in> set (fieldsLoop keywordSep [] s). w \<noteq> [] \<and> (\<forall>x \<in> set w. \<not> keywordSep (byte x))"
    by (rule fieldsLoop_fields [OF high]) simp
  moreover have "keywordSep (byte (CHR '' ''))" and "keywordSep (byte (CHR ''|''))"
    by (simp_all add: keywordSep_def byte_def)
  ultimately show ?thesis unfolding FieldsFunc_def by blast
qed

text \<open>
  C6, as amended. For every \<open><annotation>\<close> element whose type is not \<open>tts\<close>, the
  extractor stores as the keyword list of its \<open>cp\<close> key the fields of the element content
  between the separators \<open>|\<close> and space (\<open>strings.FieldsFunc\<close>): no stored keyword is
  empty or contains a space or a \<open>|\<close>, so a keyword of several words is stored as several
  keywords. A later element of the same \<open>cp\<close> that is not \<open>tts\<close> overwrites the list;
  \<open>tts\<close> elements and elements of other keys leave it as it is.
\<close>

theorem keywords_last_writer:
  assumes "Type a \<noteq> ''tts''"
    and "\<forall>b \<in> set post. CP b = CP a \<longrightarrow> Type b = ''tts''"
  shows "map_option annotations (annotationsLoop m (pre @ a # post) (CP a)) =
           Some (FieldsFunc (Annotation a) keywordSep)
       \<and> (\<forall>w \<in> set (FieldsFunc (Annotation a) keywordSep).
             w \<noteq> [] \<and> CHR '' '' \<notin> set w \<and> CHR ''|'' \<notin> set w)"
proof -
  let ?m1 = "annotationsLoop m pre"
  let ?m2 = "annotationsLoop ?m1 [a]"
  have "\<exists>d. ?m2 (CP a) = Some d \<and> annotations d = FieldsFunc (Annotation a) keywordSep"
    using assms(1) by (simp add: Let_def)
  then obtain d where d: "?m2 (CP a) = Some d"
      "annotations d = FieldsFunc (Annotation a) keywordSep"
    by blast
  have "annotationsLoop m (pre @ a # post) = annotationsLoop ?m2 post"
    by (simp add: annotationsLoop_append Let_def)
  with annotationsLoop_keeps_keywords [where m = ?m2 and d = d, OF assms(2) d(1)] d(2)
  have "map_option annotations (annotationsLoop m (pre @ a # post) (CP a)) =
          Some (FieldsFunc (Annotation a) keywordSep)"
    by simp
  with FieldsFunc_keywordSep [of "Annotation a"] show ?thesis by blast
qed

theorem keywords_last_writer_witness:
  "Type \<lparr>CP = thumbsUp, Type = [], Annotation = ''like | thumbs up''\<rparr> \<noteq> ''tts''
   \<and> map_option annotations
         (annotationsLoop Map.empty
            ([\<lparr>CP = thumbsUp, Type = [], Annotation = ''+1 | good''\<rparr>]
             @ \<lparr>CP = thumbsUp, Type = [], Annotation = ''like | thumbs up''\<rparr>
             # [\<lparr>CP = thumbsUp, Type = ''tts'', Annotation = ''thumbs up''\<rparr>])
            thumbsUp)
       = Some [''like'', ''thumbs'', ''up'']"
proof -
  let ?a = "\<lparr>CP = thumbsUp, Type = [], Annotation = ''like | thumbs up''\<rparr>"
  let ?post = "[\<lparr>CP = thumbsUp, Type = ''tts'', Annotation = ''thumbs up''\<rparr>]"
  have h1: "Type ?a \<noteq> ''tts''" by simp
  have h2: "\<forall>b \<in> set ?post. CP b = CP ?a \<longrightarrow> Type b = ''tts''" by simp
  have f: "FieldsFunc ''like | thumbs up'' keywordSep = [''like'', ''thumbs'', ''up'']"
    by code_simp
  from keywords_last_writer [OF h1 h2, of Map.empty
      "[\<lparr>CP = thumbsUp, Type = [], Annotation = ''+1 | good''\<rparr>]"]
  have "map_option annotations
          (annotationsLoop Map.empty
             ([\<lparr>CP = thumbsUp, Type = [], Annotation = ''+1 | good''\<rparr>] @ ?a # ?post)
             (CP ?a)) = Some (FieldsFunc (Annotation ?a) keywordSep)"
    by blast
  then show ?thesis using h1 by (simp only: f annotationElem.simps) simp
qed

text \<open>
  C6 as stated fails on a keyword of two words: the content \<open>like | thumbs up\<close> is
  stored as three keywords, where splitting on \<open>|\<close> and trimming gives two.
\<close>

theorem keywords_split_on_spaces:
  "map_option annotations
     (annotationsLoop Map.empty
        [\<lparr>CP = thumbsUp, Type = [], Annotation = ''like | thumbs up''\<rparr>] thumbsUp)
     = Some [''like'', ''thumbs'', ''up'']
   \<and> map TrimSpace (Split ''like | thumbs up'' ''|'') = [''like'', ''thumbs up'']"
  by code_simp

section \<open>Sorting the emoji\<close>

lemma byte_inj: "byte x = byte y \<longleftrightarrow> x = y"
  by (simp add: byte_def)

lemma Compare_range: "Compare x y = -1 \<or> Compare x y = 0 \<or> Compare x y = 1"
  by (induction x y rule: Compare.induct) auto

lemma Compare_eq_0: "Compare x y = 0 \<longleftrightarrow> x = y"
  by (induction x y rule: Compare.induct) (auto simp: byte_inj)

lemma Compare_swap: "Compare y x = - Compare x y"
  by (induction x y rule: Compare.induct) (auto simp: byte_inj)

lemma Compare_trans:
  "Compare x y \<le> 0 \<Longrightarrow> Compare y z \<le> 0 \<Longrightarrow> Compare x z \<le> 0"
proof (induction x y arbitrary: z rule: Compare.induct)
  case 1
  then show ?case by simp
next
  case (2 y ys)
  then show ?case by (cases z) auto
next
  case (3 x xs)
  then show ?case by simp
next
  case (4 x xs y ys)
  show ?case
  proof (cases z)
    case Nil
    with "4.prems" show ?thesis by simp
  next
    case (Cons c cs)
    show ?thesis
    proof (cases "byte x < byte y")
      case True
      with "4.prems" Cons show ?thesis by (auto split: if_splits)
    next
      case False
      with "4.prems"(1) have xy: "byte x = byte y" and c1: "Compare xs ys \<le> 0"
        by (auto split: if_splits)
      show ?thesis
      proof (cases "byte y < byte c")
        case True
        with xy Cons show ?thesis by simp
      next
        case False
        with "4.prems"(2) Cons have yc: "byte y = byte c" and c2: "Compare ys cs \<le> 0"
          by (auto split: if_splits)
        from "4.IH" [OF _ _ c1 c2] xy have "Compare xs cs \<le> 0" by simp
        with xy yc Cons show ?thesis by simp
      qed
    qed
  qed
qed

lemma cmpEmoji_le:
  "cmpEmoji c e f \<le> 0 \<longleftrightarrow>
     collationOrder e c < collationOrder f c
     \<or> (collationOrder e c = collationOrder f c \<and> Compare e f \<le> 0)"
  by (auto simp: cmpEmoji_def Let_def)

lemma cmpEmoji_total: "cmpEmoji c e f \<le> 0 \<or> cmpEmoji c f e \<le> 0"
  using Compare_swap [of e f] by (auto simp: cmpEmoji_le)

lemma cmpEmoji_trans:
  "cmpEmoji c e f \<le> 0 \<Longrightarrow> cmpEmoji c f g \<le> 0 \<Longrightarrow> cmpEmoji c e g \<le> 0"
  by (auto simp: cmpEmoji_le dest: Compare_trans)

lemma cmpEmoji_antisym: "cmpEmoji c e f \<le> 0 \<Longrightarrow> cmpEmoji c f e \<le> 0 \<Longrightarrow> e = f"
proof -
  assume "cmpEmoji c e f \<le> 0" and "cmpEmoji c f e \<le> 0"
  then have "Compare e f \<le> 0" and "Compare f e \<le> 0" by (auto simp: cmpEmoji_le)
  with Compare_swap [of e f] have "Compare e f = 0" by simp
  then show ?thesis by (simp add: Compare_eq_0)
qed

lemma mset_insertBy: "mset (insertBy cmp x xs) = add_mset x (mset xs)"
  by (induction xs) auto

lemma mset_SortFunc: "mset (SortFunc cmp xs) = mset xs"
  by (induction xs) (auto simp: SortFunc_def mset_insertBy)

lemma set_insertBy: "set (insertBy cmp x xs) = insert x (set xs)"
  by (induction xs) auto

lemma sorted_insertBy:
  assumes total: "\<And>a b. cmp a b \<le> 0 \<or> cmp b a \<le> 0"
    and trans: "\<And>a b c. cmp a b \<le> 0 \<Longrightarrow> cmp b c \<le> 0 \<Longrightarrow> cmp a c \<le> (0::int)"
  shows "sorted_wrt (\<lambda>a b. cmp a b \<le> 0) xs \<Longrightarrow>
           sorted_wrt (\<lambda>a b. cmp a b \<le> 0) (insertBy cmp x xs)"
proof (induction xs)
  case Nil
  then show ?case by simp
next
  case (Cons y ys)
  show ?case
  proof (cases "cmp x y \<le> 0")
    case True
    with Cons.prems trans show ?thesis by auto
  next
    case False
    with total have "cmp y x \<le> 0" by blast
    with Cons False show ?thesis by (auto simp: set_insertBy)
  qed
qed

lemma sorted_SortFunc:
  assumes "\<And>a b. cmp a b \<le> 0 \<or> cmp b a \<le> 0"
    and "\<And>a b c. cmp a b \<le> 0 \<Longrightarrow> cmp b c \<le> 0 \<Longrightarrow> cmp a c \<le> (0::int)"
  shows "sorted_wrt (\<lambda>a b. cmp a b \<le> 0) (SortFunc cmp xs)"
proof (induction xs)
  case Nil
  then show ?case by (simp add: SortFunc_def)
next
  case (Cons x xs)
  have "SortFunc cmp (x # xs) = insertBy cmp x (SortFunc cmp xs)"
    by (simp add: SortFunc_def)
  with Cons sorted_insertBy [of cmp, OF assms] show ?case by simp
qed

lemma sorted_unique:
  assumes antisym: "\<And>a b. cmp a b \<le> 0 \<Longrightarrow> cmp b a \<le> (0::int) \<Longrightarrow> a = b"
  shows "sorted_wrt (\<lambda>a b. cmp a b \<le> 0) ys \<Longrightarrow> sorted_wrt (\<lambda>a b. cmp a b \<le> 0) zs
           \<Longrightarrow> mset ys = mset zs \<Longrightarrow> ys = zs"
proof (induction ys arbitrary: zs)
  case Nil
  then show ?case by simp
next
  case (Cons y ys)
  from Cons.prems(3) obtain z zs' where zs: "zs = z # zs'" by (cases zs) auto
  have "y = z"
  proof (rule ccontr)
    assume ne: "y \<noteq> z"
    have "y \<in> set zs" using Cons.prems(3) by (metis list.set_intros(1) set_mset_mset)
    with ne zs have "y \<in> set zs'" by simp
    with Cons.prems(2) zs have zy: "cmp z y \<le> 0" by simp
    have "z \<in> set (y # ys)" using Cons.prems(3) zs by (metis list.set_intros(1) set_mset_mset)
    with ne have "z \<in> set ys" by auto
    with Cons.prems(1) have "cmp y z \<le> 0" by simp
    with zy antisym ne show False by blast
  qed
  moreover from this Cons.prems zs have "ys = zs'"
    by (intro Cons.IH) simp_all
  ultimately show ?case using zs by simp
qed

lemma sortedBy_cmpEmoji_unique:
  assumes "sortedBy (cmpEmoji c) ems ys"
  shows "ys = SortFunc (cmpEmoji c) ems"
proof -
  have "sorted_wrt (\<lambda>a b. cmpEmoji c a b \<le> 0) (SortFunc (cmpEmoji c) ems)"
    by (rule sorted_SortFunc) (use cmpEmoji_total cmpEmoji_trans in blast)+
  with assms show ?thesis
    by (intro sorted_unique [of "cmpEmoji c"])
       (auto simp: sortedBy_def mset_SortFunc dest: cmpEmoji_antisym)
qed

section \<open>The printing loop\<close>

lemma HasPrefix_prefix: "HasPrefix s p \<longleftrightarrow> prefix p s"
proof
  assume "HasPrefix s p"
  then have "s = p @ drop (length p) s"
    by (metis HasPrefix_def append_take_drop_id)
  then show "prefix p s" by (metis prefixI)
next
  assume "prefix p s"
  then show "HasPrefix s p" by (auto simp: HasPrefix_def prefix_def)
qed

lemma Contains_sublist: "Contains s sub \<longleftrightarrow> sublist sub s"
  unfolding Contains_def
  by (induction s) (auto simp: HasPrefix_prefix sublist_Cons_right)

lemma Join_Cons:
  "[] \<notin> set ks \<Longrightarrow>
     Join (n # ks) sep = n @ (if Join ks sep \<noteq> [] then sep @ Join ks sep else [])"
proof (cases ks)
  case Nil
  then show ?thesis by simp
next
  case (Cons k ks')
  assume "[] \<notin> set ks"
  with Cons have "k \<noteq> []" by auto
  then have "Join (k # ks') sep \<noteq> []" by (cases ks') auto
  with Cons show ?thesis by simp
qed

lemma filteredAnn_idem: "filteredAnn (filteredAnn a) = filteredAnn a"
  by (simp add: filteredAnn_def DeleteFunc_def)

lemma printed_filtered:
  "printed emoji (filteredAnn a) = emoji @ '' '' @ annotationText a @ [CHR 0x0A]"
proof -
  let ?kept = "filter (\<lambda>s. \<not> sublist s (name a)) (annotations a)"
  have kept: "annotations (filteredAnn a) = ?kept" and nm: "name (filteredAnn a) = name a"
    by (simp_all add: filteredAnn_def DeleteFunc_def Contains_sublist)
  have "[] \<notin> set ?kept" by simp
  from Join_Cons [OF this, of "name a" "'' ''"]
  show ?thesis
    by (simp add: printed_def annotationText_def kept nm Let_def)
qed

lemma printLoop_closed:
  assumes "\<forall>k. anns k = anns0 k \<or> anns k = map_option filteredAnn (anns0 k)"
  shows "printLoop anns es =
           (map (outputLine anns0) (takeWhile (annotated anns0) es), firstMissing anns0 es)"
  using assms
proof (induction es arbitrary: anns)
  case Nil
  then show ?case by (simp add: firstMissing_def)
next
  case (Cons e es)
  let ?k = "removePresentationSelector e"
  show ?case
  proof (cases "anns0 ?k")
    case None
    with Cons.prems have "anns ?k = None" by (metis option.map_disc_iff)
    with None show ?thesis by (simp add: annotated_def firstMissing_def)
  next
    case (Some a0)
    with Cons.prems have "anns ?k = Some a0 \<or> anns ?k = Some (filteredAnn a0)"
      by (metis option.simps(9))
    then obtain a where a: "anns ?k = Some a" and fa: "filteredAnn a = filteredAnn a0"
      by (auto simp: filteredAnn_idem)
    let ?anns' = "anns(?k \<mapsto> filteredAnn a0)"
    have rel: "\<forall>k. ?anns' k = anns0 k \<or> ?anns' k = map_option filteredAnn (anns0 k)"
      using Cons.prems Some by auto
    have "printLoop anns (e # es) =
            (case printLoop ?anns' es of
               (out, err) \<Rightarrow> (printed e (filteredAnn a0) # out, err))"
      using a fa by (simp add: filteredAnn_def [symmetric] Let_def)
    also have "\<dots> = (printed e (filteredAnn a0)
                         # map (outputLine anns0) (takeWhile (annotated anns0) es),
                       firstMissing anns0 es)"
      by (simp add: Cons.IH [OF rel])
    finally have eq: "printLoop anns (e # es) =
        (printed e (filteredAnn a0) # map (outputLine anns0) (takeWhile (annotated anns0) es),
         firstMissing anns0 es)" .
    have an: "annotated anns0 e" using Some by (simp add: annotated_def)
    have ol: "outputLine anns0 e = printed e (filteredAnn a0)"
      using Some by (simp add: outputLine_def printed_filtered)
    have fm: "firstMissing anns0 (e # es) = firstMissing anns0 es"
      using an by (simp add: firstMissing_def)
    show ?thesis
      unfolding eq by (simp add: an ol fm)
  qed
qed

lemma generate_print:
  assumes "emojis fl dataResp sequencesResp zwjResp = Ok ems"
    and "annotationsOf cldrData = Ok anns"
    and "collationData cldrData = Ok collation"
  shows "generate fl dataResp sequencesResp zwjResp (Response StatusOK status (Zip cldrData)) =
           (map (outputLine anns)
              (takeWhile (annotated anns) (SortFunc (cmpEmoji collation) ems)),
            case firstMissing anns (SortFunc (cmpEmoji collation) ems) of
              None \<Rightarrow> Ok () | Some e \<Rightarrow> Err e)"
proof -
  have "printLoop anns (SortFunc (cmpEmoji collation) ems) =
          (map (outputLine anns) (takeWhile (annotated anns) (SortFunc (cmpEmoji collation) ems)),
           firstMissing anns (SortFunc (cmpEmoji collation) ems))"
    by (rule printLoop_closed) simp
  with assms show ?thesis
    by (simp add: generate_def split: option.splits)
qed

lemma fixture_emojis:
  "emojis someFlags (served dataLines) (served sequenceLines) (served zwjLines) =
     Ok [thumbsUp @ lightSkin, family3]"
  by code_simp

lemma fixture_collation:
  "collationData (cldrWith elems) = Ok (store (assignments 1 [man, family3]) Map.empty)"
proof -
  have sp: "Split familyRules [CHR 0x0A] = [CHR ''<'' # CHR ''*'' # man, CHR ''<'' # family3]"
    by code_simp
  have k1: "lineKeys (CHR ''<'' # CHR ''*'' # man) = Some [man]" by code_simp
  have k2: "lineKeys (CHR ''<'' # family3) = Some [family3]" by code_simp
  have ne: "familyRules \<noteq> []" by (simp add: familyRules_def)
  have loop: "collationLoop (Map.empty, 1) [CHR ''<'' # CHR ''*'' # man, CHR ''<'' # family3] =
      Ok (store (assignments 1 [man, family3]) Map.empty, 3)"
    using k1 k2 by (simp add: assignments_Cons assignments_Nil store_def)
  show ?thesis
    by (simp add: collationData_def collationStart_def cldrWith_def ne sp loop
          del: collationLoop.simps)
qed

lemma fixture_annotations: "annotationsOf (cldrWith elems) = Ok (annotationsLoop Map.empty elems)"
  by (simp add: annotationsOf_def annotationsInFile_def cldrWith_def)

section \<open>The output of the driver\<close>

text \<open>
  C7. When the driver produces the line of an emoji, it drops every keyword that is a
  substring of the name (\<open>sublist\<close>: an exact, case-sensitive match anywhere in the name)
  and emits the emoji, a space, and as the single annotation field the name followed by
  the remaining keywords, separated by spaces. The keywords are those of the merged
  annotation map, also when an earlier line has written a filtered list back.
\<close>

theorem rendered_annotation_text:
  assumes "emojis fl dataResp sequencesResp zwjResp = Ok ems"
    and "annotationsOf cldrData = Ok anns"
    and "collationData cldrData = Ok collation"
  shows "fst (generate fl dataResp sequencesResp zwjResp
                (Response StatusOK status (Zip cldrData))) =
           map (\<lambda>emoji. emoji @ '' ''
                  @ Join (name (the (anns (removePresentationSelector emoji)))
                          # filter (\<lambda>s. \<not> sublist s
                                           (name (the (anns (removePresentationSelector emoji)))))
                              (annotations (the (anns (removePresentationSelector emoji)))))
                      '' ''
                  @ [CHR 0x0A])
             (takeWhile (annotated anns) (SortFunc (cmpEmoji collation) ems))"
proof -
  have "outputLine anns =
      (\<lambda>emoji. emoji @ '' ''
          @ Join (name (the (anns (removePresentationSelector emoji)))
                  # filter (\<lambda>s. \<not> sublist s
                                   (name (the (anns (removePresentationSelector emoji)))))
                      (annotations (the (anns (removePresentationSelector emoji)))))
              '' ''
          @ [CHR 0x0A])"
    by (simp add: outputLine_def annotationText_def fun_eq_iff)
  with generate_print [OF assms, of status] show ?thesis by simp
qed

theorem rendered_annotation_text_witness:
  "emojis someFlags (served dataLines) (served sequenceLines) (served zwjLines) =
     Ok [thumbsUp @ lightSkin, family3]
   \<and> fst (generate someFlags (served dataLines) (served sequenceLines) (served zwjLines)
            (Response StatusOK ''200 OK'' (Zip (cldrWith (thumbsElems @ familyElems))))) =
       [thumbsUp @ lightSkin @ '' thumbs up: light skin tone like'' @ [CHR 0x0A],
        family3 @ '' family: man, woman, boy'' @ [CHR 0x0A]]
   \<and> map (\<lambda>emoji. emoji @ '' ''
              @ Join (name (the (annotationsLoop Map.empty (thumbsElems @ familyElems)
                                  (removePresentationSelector emoji)))
                      # filter (\<lambda>s. \<not> sublist s
                                  (name (the (annotationsLoop Map.empty (thumbsElems @ familyElems)
                                               (removePresentationSelector emoji)))))
                          (annotations (the (annotationsLoop Map.empty (thumbsElems @ familyElems)
                                               (removePresentationSelector emoji)))))
                  '' ''
              @ [CHR 0x0A])
         (takeWhile (annotated (annotationsLoop Map.empty (thumbsElems @ familyElems)))
            (SortFunc (cmpEmoji (store (assignments 1 [man, family3]) Map.empty))
               [thumbsUp @ lightSkin, family3])) =
       [thumbsUp @ lightSkin @ '' thumbs up: light skin tone like'' @ [CHR 0x0A],
        family3 @ '' family: man, woman, boy'' @ [CHR 0x0A]]"
proof -
  have run: "fst (generate someFlags (served dataLines) (served sequenceLines) (served zwjLines)
            (Response StatusOK ''200 OK'' (Zip (cldrWith (thumbsElems @ familyElems))))) =
       [thumbsUp @ lightSkin @ '' thumbs up: light skin tone like'' @ [CHR 0x0A],
        family3 @ '' family: man, woman, boy'' @ [CHR 0x0A]]"
    by code_simp
  from rendered_annotation_text [where status = "''200 OK''", OF fixture_emojis
      fixture_annotations [of "thumbsElems @ familyElems"]
      fixture_collation [of "thumbsElems @ familyElems"]] run fixture_emojis
  show ?thesis by metis
qed

text \<open>
  C8. If an emoji of the built set has no entry in the merged annotation map under its
  selector-stripped key, the run ends with the error \<open>emoji %q has no annotation\<close> naming
  the first such emoji in sort order. The lines printed are exactly those of the emoji
  before it in sort order, each of them annotated: earlier lines have been printed, and
  no line is printed for an emoji without annotation or for any emoji after the first
  of these.
\<close>

theorem missing_annotation_is_fatal:
  assumes "emojis fl dataResp sequencesResp zwjResp = Ok ems"
    and "annotationsOf cldrData = Ok anns"
    and "collationData cldrData = Ok collation"
    and "\<exists>e \<in> set ems. \<not> annotated anns e"
  shows "\<exists>before first after.
           SortFunc (cmpEmoji collation) ems = before @ first # after
           \<and> (\<forall>e \<in> set before. annotated anns e)
           \<and> \<not> annotated anns first \<and> first \<in> set ems
           \<and> generate fl dataResp sequencesResp zwjResp
                 (Response StatusOK status (Zip cldrData)) =
               (map (outputLine anns) before, Err (NoAnnotation first))"
proof -
  let ?sorted = "SortFunc (cmpEmoji collation) ems"
  have "set ?sorted = set ems" by (metis mset_SortFunc set_mset_mset)
  with assms(4) have ex: "\<exists>e \<in> set ?sorted. \<not> annotated anns e" by simp
  then obtain first after where dw: "dropWhile (annotated anns) ?sorted = first # after"
    by (cases "dropWhile (annotated anns) ?sorted") (auto simp: dropWhile_eq_Nil_conv)
  let ?before = "takeWhile (annotated anns) ?sorted"
  have split: "?sorted = ?before @ first # after"
    using dw by (metis takeWhile_dropWhile_id)
  have nf: "\<not> annotated anns first"
    using dw by (metis hd_dropWhile list.distinct(1) list.sel(1))
  have "first \<in> set ?sorted" using split by (metis in_set_conv_decomp)
  then have mem: "first \<in> set ems" using \<open>set ?sorted = set ems\<close> by simp
  have b: "\<forall>e \<in> set ?before. annotated anns e" by (meson set_takeWhileD)
  have "generate fl dataResp sequencesResp zwjResp (Response StatusOK status (Zip cldrData)) =
          (map (outputLine anns) ?before, Err (NoAnnotation first))"
    using generate_print [OF assms(1-3), of status] dw by (simp add: firstMissing_def)
  with split nf mem b show ?thesis by blast
qed

theorem missing_annotation_is_fatal_witness:
  "emojis someFlags (served dataLines) (served sequenceLines) (served zwjLines) =
     Ok [thumbsUp @ lightSkin, family3]
   \<and> \<not> annotated (annotationsLoop Map.empty thumbsElems) family3
   \<and> generate someFlags (served dataLines) (served sequenceLines) (served zwjLines)
         (Response StatusOK ''200 OK'' (Zip (cldrWith thumbsElems))) =
       ([thumbsUp @ lightSkin @ '' thumbs up: light skin tone like'' @ [CHR 0x0A]],
        Err (NoAnnotation family3))"
proof -
  have na: "\<not> annotated (annotationsLoop Map.empty thumbsElems) family3" by code_simp
  then have ex: "\<exists>e \<in> set [thumbsUp @ lightSkin, family3].
      \<not> annotated (annotationsLoop Map.empty thumbsElems) e"
    by simp
  have run: "generate someFlags (served dataLines) (served sequenceLines) (served zwjLines)
         (Response StatusOK ''200 OK'' (Zip (cldrWith thumbsElems))) =
       ([thumbsUp @ lightSkin @ '' thumbs up: light skin tone like'' @ [CHR 0x0A]],
        Err (NoAnnotation family3))"
    by code_simp
  from missing_annotation_is_fatal [where status = "''200 OK''", OF fixture_emojis
      fixture_annotations [of thumbsElems] fixture_collation [of thumbsElems] ex]
  obtain before first where
    "generate someFlags (served dataLines) (served sequenceLines) (served zwjLines)
         (Response StatusOK ''200 OK'' (Zip (cldrWith thumbsElems))) =
       (map (outputLine (annotationsLoop Map.empty thumbsElems)) before,
        Err (NoAnnotation first))"
    by blast
  with run have "first = family3" by simp
  with na run fixture_emojis show ?thesis by blast
qed

text \<open>
  C2. When every emoji of the built set is annotated, the driver prints exactly one line
  per emoji of the built set and ends without error; the lines are in the order of the
  sorted list, which is sorted by \<open>collationOrder\<close> ascending with ties broken by the
  bytewise comparison of the strings ascending. That comparison is 0 only for equal
  strings, so the sorted arrangement of the built set is unique: whatever arrangement
  \<open>slices.SortFunc\<close> produces within its contract, it is this one, and the output of a
  run is determined by the input files.
\<close>

theorem output_sorted_and_determined:
  assumes "emojis fl dataResp sequencesResp zwjResp = Ok ems"
    and "annotationsOf cldrData = Ok anns"
    and "collationData cldrData = Ok collation"
    and "\<forall>e \<in> set ems. annotated anns e"
  shows "generate fl dataResp sequencesResp zwjResp (Response StatusOK status (Zip cldrData)) =
           (map (outputLine anns) (SortFunc (cmpEmoji collation) ems), Ok ())
       \<and> length (map (outputLine anns) (SortFunc (cmpEmoji collation) ems)) = length ems
       \<and> sortedBy (cmpEmoji collation) ems (SortFunc (cmpEmoji collation) ems)
       \<and> (\<forall>ys. sortedBy (cmpEmoji collation) ems ys \<longrightarrow> ys = SortFunc (cmpEmoji collation) ems)
       \<and> (\<forall>e f. cmpEmoji collation e f \<le> 0 \<longleftrightarrow>
                   collationOrder e collation < collationOrder f collation
                   \<or> (collationOrder e collation = collationOrder f collation
                       \<and> Compare e f \<le> 0))
       \<and> (\<forall>e f. Compare e f = 0 \<longleftrightarrow> e = f)"
proof -
  let ?sorted = "SortFunc (cmpEmoji collation) ems"
  have "set ?sorted = set ems" by (metis mset_SortFunc set_mset_mset)
  with assms(4) have all: "\<forall>e \<in> set ?sorted. annotated anns e" by simp
  then have tw: "takeWhile (annotated anns) ?sorted = ?sorted"
    and dw: "dropWhile (annotated anns) ?sorted = []"
    by (simp_all add: takeWhile_eq_all_conv dropWhile_eq_Nil_conv)
  have run: "generate fl dataResp sequencesResp zwjResp (Response StatusOK status (Zip cldrData)) =
      (map (outputLine anns) ?sorted, Ok ())"
    using generate_print [OF assms(1-3), of status] tw dw by (simp add: firstMissing_def)
  have len: "length (map (outputLine anns) ?sorted) = length ems"
    by (metis length_map mset_SortFunc size_mset)
  have "sorted_wrt (\<lambda>a b. cmpEmoji collation a b \<le> 0) ?sorted"
    by (rule sorted_SortFunc) (use cmpEmoji_total cmpEmoji_trans in blast)+
  then have srt: "sortedBy (cmpEmoji collation) ems ?sorted"
    by (simp add: sortedBy_def mset_SortFunc)
  show ?thesis
    using run len srt sortedBy_cmpEmoji_unique cmpEmoji_le Compare_eq_0 by blast
qed

theorem output_sorted_and_determined_witness:
  "emojis someFlags (served dataLines) (served sequenceLines) (served zwjLines) =
     Ok [thumbsUp @ lightSkin, family3]
   \<and> annotated (annotationsLoop Map.empty (thumbsElems @ familyElems)) (thumbsUp @ lightSkin)
   \<and> annotated (annotationsLoop Map.empty (thumbsElems @ familyElems)) family3
   \<and> generate someFlags (served dataLines) (served sequenceLines) (served zwjLines)
         (Response StatusOK ''200 OK'' (Zip (cldrWith (thumbsElems @ familyElems)))) =
       ([thumbsUp @ lightSkin @ '' thumbs up: light skin tone like'' @ [CHR 0x0A],
         family3 @ '' family: man, woman, boy'' @ [CHR 0x0A]], Ok ())
   \<and> map (outputLine (annotationsLoop Map.empty (thumbsElems @ familyElems)))
         (SortFunc (cmpEmoji (store (assignments 1 [man, family3]) Map.empty))
            [thumbsUp @ lightSkin, family3]) =
       [thumbsUp @ lightSkin @ '' thumbs up: light skin tone like'' @ [CHR 0x0A],
        family3 @ '' family: man, woman, boy'' @ [CHR 0x0A]]"
proof -
  let ?anns = "annotationsLoop Map.empty (thumbsElems @ familyElems)"
  have a1: "annotated ?anns (thumbsUp @ lightSkin)" by code_simp
  have a2: "annotated ?anns family3" by code_simp
  from a1 a2 have all: "\<forall>e \<in> set [thumbsUp @ lightSkin, family3]. annotated ?anns e" by simp
  have run: "generate someFlags (served dataLines) (served sequenceLines) (served zwjLines)
         (Response StatusOK ''200 OK'' (Zip (cldrWith (thumbsElems @ familyElems)))) =
       ([thumbsUp @ lightSkin @ '' thumbs up: light skin tone like'' @ [CHR 0x0A],
         family3 @ '' family: man, woman, boy'' @ [CHR 0x0A]], Ok ())"
    by code_simp
  from output_sorted_and_determined [where status = "''200 OK''", OF fixture_emojis
      fixture_annotations [of "thumbsElems @ familyElems"]
      fixture_collation [of "thumbsElems @ familyElems"] all]
  have "generate someFlags (served dataLines) (served sequenceLines) (served zwjLines)
         (Response StatusOK ''200 OK'' (Zip (cldrWith (thumbsElems @ familyElems)))) =
       (map (outputLine ?anns)
          (SortFunc (cmpEmoji (store (assignments 1 [man, family3]) Map.empty))
             [thumbsUp @ lightSkin, family3]), Ok ())"
    by blast
  with run a1 a2 fixture_emojis show ?thesis by simp
qed

section \<open>The cache file after a failed fetch\<close>

text \<open>
  The variant of \<open>getCached\<close> that removes the file on both failures leaves no cache
  entry behind whenever it returns an error.
\<close>

lemma getCached_mkdir_no_partial_file:
  assumes "snd (getCached_mkdir env fs url cacheDir) = Err e"
  shows "fst (getCached_mkdir env fs url cacheDir) (cacheDir @ ''/'' @ Base url) = None"
  using assms
  by (auto simp: getCached_mkdir_def Let_def
           split: if_splits response.splits download.splits option.splits)

text \<open>
  C9. Whenever \<open>getCached\<close> returns an error after it has created the cache file, the
  partial file should be gone. In the variant that ends with
  \<open>return cachePath, f.Close()\<close>, a failed close returns the error and leaves the file:
  fetching \<open>https://unicode.org/emoji-data.txt\<close> into an empty cache directory with a
  failing close ends with the error while \<open>cache/emoji-data.txt\<close> holds what was written.
\<close>

theorem getCached_failed_close_leaves_file:
  "snd (getCached closeFails Map.empty ''https://unicode.org/emoji-data.txt'' ''cache'') =
     Err (IOError ''close: no space left on device'')
   \<and> fst (getCached closeFails Map.empty ''https://unicode.org/emoji-data.txt'' ''cache'')
         ''cache/emoji-data.txt'' = Some ''partial''
   \<and> fst (getCached_mkdir closeFails Map.empty ''https://unicode.org/emoji-data.txt'' ''cache'')
         ''cache/emoji-data.txt'' = None"
  by code_simp

section \<open>The parser and reversed ranges\<close>

text \<open>
  C10. \<open>parseEmojiDataLine\<close> is meant to return a list and a tag, or an error, on every
  line. On the line \<open>3..1;x\<close> the range is reversed: \<open>start = 3\<close>, \<open>end = 1\<close>, the
  capacity \<open>end-start+1\<close> passed to \<open>make\<close> is \<open>-1\<close>, and the call panics at run time
  instead of returning. (The empty range \<open>2..1\<close> has capacity 0 and returns an empty
  list; a malformed end point is reported through the error.)
\<close>

theorem parseEmojiDataLine_reversed_range_panics:
  "parseEmojiDataLine ''3..1;x'' = Panic
   \<and> parseEmojiDataLine ''2..1;x'' = Ok ([], ''x'')
   \<and> parseEmojiDataLine ''1..g;x'' = Err (FailedToParseLine ''1..g;x'')"
  by code_simp

end
